theory Spec2Isabelle
  imports Complex_Main "HOL-Library.Word"
begin

unbundle bit_operations_syntax

section \<open>Forge Overlay: the hash-chained event log of forge-overlay-core.js\<close>

text \<open>
  The engine of \<^verbatim>\<open>src/_misc/forge-overlay-core.js\<close> keeps module-level variables
  (\<^verbatim>\<open>lastHash\<close>, \<^verbatim>\<open>state\<close>, \<^verbatim>\<open>options\<close>) and two persistent stores (the ordered
  event store and the metadata slot). The embedding passes them explicitly as one record.
  Calls are taken one after the other, each running to completion before the next starts
  (the \<^verbatim>\<open>await\<close> points of the source are not interleaved), and every write to the store
  is taken to succeed.

  Conventions of the embedding:
  \<^item> JavaScript numbers are exact rationals (\<^typ>\<open>rat\<close>); \<^verbatim>\<open>Math.round\<close> is \<^const>\<open>round\<close>
    (nearest integer, halves upwards). The source adds IEEE doubles, so a sum it computes can
    differ from the exact one in its last bits: after 55 heartbeats it holds a little less
    than 5.5 and rounds to 5, where the exact sum rounds to 6, and amounts beyond \<open>2\<^sup>5\<^sup>3\<close>
    are not added exactly. What is proved below of accrued totals is proved of the exact sums.
  \<^item> Strings are \<^typ>\<open>string\<close>; \<^verbatim>\<open>charCodeAt\<close> is the code of the character.
  \<^item> \<^verbatim>\<open>crypto.subtle\<close>, \<^verbatim>\<open>JSON.stringify\<close>, \<^verbatim>\<open>Math.random\<close> and the clock belong to the
    host: the first two are fields of a platform record, the nonce and the timestamp are
    arguments of the operations that draw them.
\<close>

subsection \<open>Data model\<close>

datatype json =
    JNull
  | JBool bool
  | JNum rat
  | JStr string
  | JArr "json list"
  | JObj "(string \<times> json) list"

text \<open>
  The \<^verbatim>\<open>data\<close> object of an entry. The accrual rule reads its member \<^verbatim>\<open>amount\<close> and adds it to
  a number, so that member is typed as an optional number (absent, \<^verbatim>\<open>undefined\<close> and
  \<^verbatim>\<open>null\<close> are \<open>None\<close>); every other member is opaque to the engine.
\<close>

record jsdata =
  amount :: "rat option"
  members :: "(string \<times> json) list"

text \<open>The entry literal built by \<^verbatim>\<open>log\<close> and by the heartbeat timer:
  \<^verbatim>\<open>{ type, data, t, appId, profileId }\<close>.\<close>

record entry =
  type :: string
  data :: "jsdata option"
  t :: string
  appId :: string
  profileId :: string

text \<open>A stored record: \<^verbatim>\<open>{ ...entry, prev, nonce, hash }\<close>.\<close>

record rec =
  e_type :: string
  e_data :: "jsdata option"
  e_t :: string
  e_appId :: string
  e_profileId :: string
  e_prev :: string
  e_nonce :: string
  e_hash :: string

text \<open>The module variable \<^verbatim>\<open>state = { xp, streak, lastAt, events, rootHash }\<close>.\<close>

record fstate =
  xp :: rat
  streak :: nat
  lastAt :: nat
  events :: nat
  rootHash :: string

record foptions =
  opt_appId :: string
  opt_profileId :: string
  opt_ui :: bool

text \<open>The host: \<^verbatim>\<open>crypto.subtle.digest('SHA-256', _)\<close> when the browser has it (the bytes of
  the digest), and \<^verbatim>\<open>JSON.stringify\<close> on entry literals.\<close>

record platform =
  subtle_digest :: "(string \<Rightarrow> nat list) option"
  JSON_stringify :: "entry \<Rightarrow> string"

text \<open>The engine: module variables and the two persistent stores (\<^verbatim>\<open>STORE\<close> or
  \<^verbatim>\<open>LS_KEY_EVENTS\<close> in insertion order; \<^verbatim>\<open>META\<close> or \<^verbatim>\<open>LS_KEY_META\<close>).\<close>

record engine =
  options :: foptions
  lastHash :: string
  state :: fstate
  store :: "rec list"
  meta :: "(string \<times> fstate) option"

text \<open>Result objects \<^verbatim>\<open>{ ok }\<close> and \<^verbatim>\<open>{ ok, errorIndex }\<close>; a member the source leaves out
  is \<open>None\<close>.\<close>

record result =
  ok :: bool
  errorIndex :: "nat option"

record import_result =
  i_ok :: bool
  merged :: nat



subsection \<open>Hash primitive\<close>

definition hex_digit :: "nat \<Rightarrow> char" where
  "hex_digit n = ''0123456789abcdef'' ! (n mod 16)"

text \<open>\<^verbatim>\<open>n.toString(16)\<close> on a non-negative integer.\<close>

function toString16 :: "nat \<Rightarrow> string" where
  "toString16 n = (if n < 16 then [hex_digit n] else toString16 (n div 16) @ [hex_digit n])"
  by pat_completeness auto
termination
  by (relation "measure id") auto

definition padStart :: "nat \<Rightarrow> char \<Rightarrow> string \<Rightarrow> string" where
  "padStart n c s = replicate (n - length s) c @ s"

definition padEnd :: "nat \<Rightarrow> char \<Rightarrow> string \<Rightarrow> string" where
  "padEnd n c s = s @ replicate (n - length s) c"

text \<open>\<^verbatim>\<open>s.slice(-n)\<close>: the last \<open>n\<close> characters.\<close>

definition slice_last :: "nat \<Rightarrow> string \<Rightarrow> string" where
  "slice_last n s = drop (length s - n) s"

text \<open>The fallback loop \<^verbatim>\<open>h = (h ^ str.charCodeAt(i)) >>> 0\<close> on unsigned 32-bit values.\<close>

definition xor_fold :: "string \<Rightarrow> 32 word" where
  "xor_fold str = foldl (\<lambda>h c. h XOR of_nat (of_char c)) 0 str"

definition sha256Hex :: "platform \<Rightarrow> string \<Rightarrow> string" where
  "sha256Hex P str =
     (case subtle_digest P of
        Some digest \<Rightarrow> concat (map (\<lambda>b. padStart 2 (CHR ''0'') (toString16 b)) (digest str))
      | None \<Rightarrow>
          padEnd 64 (CHR ''0'')
            (slice_last 8 (''00000000'' @ toString16 (unat (xor_fold str)))))"

subsection \<open>Chain engine\<close>

definition GENESIS :: string where
  "GENESIS = ''GENESIS''"

definition fresh_engine :: engine where
  "fresh_engine =
     \<lparr> options = \<lparr> opt_appId = ''app'', opt_profileId = ''anon'', opt_ui = True \<rparr>,
       lastHash = GENESIS,
       state = \<lparr> xp = 0, streak = 0, lastAt = 0, events = 0, rootHash = GENESIS \<rparr>,
       store = [],
       meta = None \<rparr>"

definition saveMeta :: "engine \<Rightarrow> engine" where
  "saveMeta g = g\<lparr> meta := Some (lastHash g, state g) \<rparr>"

text \<open>\<^verbatim>\<open>Object.assign(state, meta.state || {})\<close> and \<^verbatim>\<open>lastHash = meta.lastHash || 'GENESIS'\<close>;
  the empty string is falsy.\<close>

definition loadMeta :: "engine \<Rightarrow> engine" where
  "loadMeta g =
     (case meta g of
        None \<Rightarrow> g\<lparr> lastHash := GENESIS \<rparr>
      | Some (lh, st) \<Rightarrow> g\<lparr> state := st, lastHash := (if lh = [] then GENESIS else lh) \<rparr>)"

definition mk_rec :: "entry \<Rightarrow> string \<Rightarrow> string \<Rightarrow> string \<Rightarrow> rec" where
  "mk_rec en p n h =
     \<lparr> e_type = type en, e_data = data en, e_t = t en, e_appId = appId en,
       e_profileId = profileId en, e_prev = p, e_nonce = n, e_hash = h \<rparr>"

text \<open>The literal \<^verbatim>\<open>{type:e.type, data:e.data, t:e.t, appId:e.appId, profileId:e.profileId}\<close>
  that replay and verification serialise.\<close>

definition entry_of :: "rec \<Rightarrow> entry" where
  "entry_of e =
     \<lparr> type = e_type e, data = e_data e, t = e_t e, appId = e_appId e,
       profileId = e_profileId e \<rparr>"

definition appendEvent :: "platform \<Rightarrow> string \<Rightarrow> entry \<Rightarrow> engine \<Rightarrow> rec \<times> engine" where
  "appendEvent P nonce en g =
     (let payload = JSON_stringify P en;
          hash = sha256Hex P (lastHash g @ ''|'' @ payload @ ''|'' @ nonce);
          r = mk_rec en (lastHash g) nonce hash;
          g1 = g\<lparr> store := store g @ [r] \<rparr>;
          g2 = g1\<lparr> lastHash := hash,
                   state := (state g1)\<lparr> rootHash := hash, events := events (state g1) + 1 \<rparr> \<rparr>
      in (r, saveMeta g2))"

text \<open>The digest that replay and verification recompute for a stored record.\<close>

definition recomputed :: "platform \<Rightarrow> rec \<Rightarrow> string" where
  "recomputed P e =
     sha256Hex P (e_prev e @ ''|'' @ JSON_stringify P (entry_of e) @ ''|'' @ e_nonce e)"

text \<open>\<^verbatim>\<open>(e.data && e.data.amount) || 1\<close>: zero is falsy, like a missing member.\<close>

definition amount_or_default :: "jsdata option \<Rightarrow> rat" where
  "amount_or_default d =
     (case d of
        None \<Rightarrow> 1
      | Some m \<Rightarrow> (case amount m of None \<Rightarrow> 1 | Some a \<Rightarrow> if a = 0 then 1 else a))"

record loop =
  l_ok :: bool
  l_prev :: string
  l_xp :: rat
  l_streak :: nat
  l_lastDay :: "string option"

definition loop_init :: loop where
  "loop_init = \<lparr> l_ok = True, l_prev = GENESIS, l_xp = 0, l_streak = 0, l_lastDay = None \<rparr>"

text \<open>The body of the replay loop after the integrity test: accrual and streak.\<close>

definition accrue :: "rec \<Rightarrow> loop \<Rightarrow> loop" where
  "accrue e s =
     (let s1 = s\<lparr> l_prev := e_hash e \<rparr>;
          s2 = (if e_type e = ''xp'' then s1\<lparr> l_xp := l_xp s1 + amount_or_default (e_data e) \<rparr>
                else s1);
          s3 = (if e_type e = ''heartbeat'' then s2\<lparr> l_xp := l_xp s2 + 1 / 10 \<rparr> else s2);
          day = take 10 (e_t e)
      in if day \<noteq> [] \<and> Some day \<noteq> l_lastDay s3
         then s3\<lparr> l_streak := l_streak s3 + 1, l_lastDay := Some day \<rparr>
         else s3)"

fun rebuild_loop :: "platform \<Rightarrow> rec list \<Rightarrow> loop \<Rightarrow> loop" where
  "rebuild_loop P [] s = s"
| "rebuild_loop P (e # es) s =
     (if e_prev e \<noteq> l_prev s \<or> recomputed P e \<noteq> e_hash e then s\<lparr> l_ok := False \<rparr>
      else rebuild_loop P es (accrue e s))"

definition rebuildFromZero :: "platform \<Rightarrow> engine \<Rightarrow> result \<times> engine" where
  "rebuildFromZero P g =
     (let s = rebuild_loop P (store g) loop_init;
          g1 = g\<lparr> lastHash := l_prev s,
                  state := (state g)\<lparr> rootHash := l_prev s, xp := of_int (round (l_xp s)),
                                      streak := l_streak s, events := length (store g) \<rparr> \<rparr>
      in (\<lparr> ok = l_ok s, errorIndex = None \<rparr>, saveMeta g1))"

fun verify_loop :: "platform \<Rightarrow> rec list \<Rightarrow> nat \<Rightarrow> string \<Rightarrow> result" where
  "verify_loop P [] i p = \<lparr> ok = True, errorIndex = None \<rparr>"
| "verify_loop P (e # es) i p =
     (if e_prev e \<noteq> p \<or> recomputed P e \<noteq> e_hash e then \<lparr> ok = False, errorIndex = Some i \<rparr>
      else verify_loop P es (i + 1) (e_hash e))"

definition verify :: "platform \<Rightarrow> engine \<Rightarrow> result" where
  "verify P g = verify_loop P (store g) 0 GENESIS"

subsection \<open>Session driver\<close>

text \<open>\<^verbatim>\<open>log(type, data={})\<close>: the default applies when the caller passes no data; \<open>now\<close> is
  the reading of the clock.\<close>

definition log :: "platform \<Rightarrow> string \<Rightarrow> string \<Rightarrow> string \<Rightarrow> jsdata option \<Rightarrow> engine \<Rightarrow> rec \<times> engine" where
  "log P nonce now ty d g =
     (let d' = (case d of None \<Rightarrow> \<lparr> amount = None, members = [] \<rparr> | Some m \<Rightarrow> m);
          en = \<lparr> type = ty, data = Some d', t = now, appId = opt_appId (options g),
                 profileId = opt_profileId (options g) \<rparr>;
          (r, g1) = appendEvent P nonce en g;
          g2 = (if ty = ''click'' \<or> ty = ''quest:complete''
                then g1\<lparr> state := (state g1)\<lparr> xp := xp (state g1) + 1 \<rparr> \<rparr> else g1)
      in (r, g2))"

definition getState :: "engine \<Rightarrow> fstate" where
  "getState g = state g"

text \<open>One firing of the heartbeat timer: nothing unless the page is visible; otherwise a
  heartbeat record is appended and the in-memory \<^verbatim>\<open>state.xp\<close> grows by 0.1.\<close>

definition heartbeat_tick :: "platform \<Rightarrow> bool \<Rightarrow> string \<Rightarrow> string \<Rightarrow> string \<Rightarrow> engine \<Rightarrow> engine" where
  "heartbeat_tick P visible nonce now path g =
     (if \<not> visible then g
      else
        (let en = \<lparr> type = ''heartbeat'',
                    data = Some \<lparr> amount = None, members = [(''path'', JStr path)] \<rparr>,
                    t = now, appId = opt_appId (options g),
                    profileId = opt_profileId (options g) \<rparr>;
             (r, g1) = appendEvent P nonce en g
         in g1\<lparr> state := (state g1)\<lparr> xp := xp (state g1) + 1 / 10 \<rparr> \<rparr>))"


text \<open>The merge loop of \<^verbatim>\<open>importLog\<close>: the engine (its store grows), the running \<^verbatim>\<open>prev\<close> and
  the count.\<close>

fun import_loop :: "rec list \<Rightarrow> engine \<times> string \<times> nat \<Rightarrow> engine \<times> string \<times> nat" where
  "import_loop [] acc = acc"
| "import_loop (e # es) (g, p, m) =
     (if e_prev e = p then import_loop es (g\<lparr> store := store g @ [e] \<rparr>, e_hash e, m + 1)
      else import_loop es (g, p, m))"

text \<open>\<^verbatim>\<open>importLog(json)\<close>: \<open>None\<close> is a \<^verbatim>\<open>json\<close> that is falsy or has no \<^verbatim>\<open>entries\<close>.\<close>

definition importLog :: "platform \<Rightarrow> rec list option \<Rightarrow> engine \<Rightarrow> import_result \<times> engine" where
  "importLog P j g =
     (case j of
        None \<Rightarrow> (\<lparr> i_ok = False, merged = 0 \<rparr>, g)
      | Some es \<Rightarrow>
          (let (g1, p, m) = import_loop es (g, rootHash (state g), 0);
               (r, g2) = rebuildFromZero P g1
           in (\<lparr> i_ok = True, merged = m \<rparr>, g2)))"

text \<open>\<^verbatim>\<open>init(opts)\<close> up to the user interface: the options, the metadata slot, one replay.\<close>

definition init :: "platform \<Rightarrow> foptions \<Rightarrow> engine \<Rightarrow> engine" where
  "init P opts g = snd (rebuildFromZero P (loadMeta (g\<lparr> options := opts \<rparr>)))"

text \<open>A sequence of serialised \<^verbatim>\<open>appendEvent\<close> calls, each with its nonce and entry.\<close>

fun appendEvents :: "platform \<Rightarrow> (string \<times> entry) list \<Rightarrow> engine \<Rightarrow> engine" where
  "appendEvents P [] g = g"
| "appendEvents P ((n, en) # xs) g = appendEvents P xs (snd (appendEvent P n en g))"

subsection \<open>Notions used to state the properties\<close>

text \<open>The longest prefix of a record sequence that passes the integrity test of replay and
  verification, starting from the expected predecessor hash \<open>p\<close>.\<close>

fun good_prefix :: "platform \<Rightarrow> string \<Rightarrow> rec list \<Rightarrow> rec list" where
  "good_prefix P p [] = []"
| "good_prefix P p (e # es) =
     (if e_prev e \<noteq> p \<or> recomputed P e \<noteq> e_hash e then []
      else e # good_prefix P (e_hash e) es)"

text \<open>In the words of the specification: the hash of the predecessor of record \<open>i\<close> (the
  sentinel for the first record), and a record whose stored \<^verbatim>\<open>prev\<close> differs from it or whose
  recomputed digest differs from its stored hash.\<close>

definition expected_prev :: "string \<Rightarrow> rec list \<Rightarrow> nat \<Rightarrow> string" where
  "expected_prev p es i = (if i = 0 then p else e_hash (es ! (i - 1)))"

definition broken_at :: "platform \<Rightarrow> string \<Rightarrow> rec list \<Rightarrow> nat \<Rightarrow> bool" where
  "broken_at P p es i =
     (i < length es \<and>
      (e_prev (es ! i) \<noteq> expected_prev p es i \<or> recomputed P (es ! i) \<noteq> e_hash (es ! i)))"

text \<open>The first broken record: \<open>i\<close> is broken and no earlier index is.\<close>

definition first_broken :: "platform \<Rightarrow> rec list \<Rightarrow> nat \<Rightarrow> bool" where
  "first_broken P es i =
     (broken_at P GENESIS es i \<and> list_all (\<lambda>j. \<not> broken_at P GENESIS es j) [0..<i])"

text \<open>The calendar dates of the records, in order: the first 10 characters of each
  timestamp, records without a timestamp left out.\<close>

definition days :: "rec list \<Rightarrow> string list" where
  "days es = filter (\<lambda>d. d \<noteq> []) (map (\<lambda>e. take 10 (e_t e)) es)"


text \<open>A sequence of \<^verbatim>\<open>log\<close> calls: nonce, clock reading, type and data of each.\<close>

fun logs :: "platform \<Rightarrow> (string \<times> string \<times> string \<times> jsdata option) list \<Rightarrow> engine \<Rightarrow> engine" where
  "logs P [] g = g"
| "logs P ((n, now, ty, d) # xs) g = logs P xs (snd (log P n now ty d g))"

subsection \<open>A concrete host for evaluation\<close>

text \<open>A browser without \<^verbatim>\<open>crypto.subtle\<close> (the fallback digest is used), with a serialiser
  that stands in for \<^verbatim>\<open>JSON.stringify\<close> on the entries of the examples.\<close>

definition demo_platform :: platform where
  "demo_platform =
     \<lparr> subtle_digest = None,
       JSON_stringify = (\<lambda>en. type en @ '','' @ t en @ '','' @ appId en @ '','' @ profileId en) \<rparr>"

definition no_data :: jsdata where
  "no_data = \<lparr> amount = None, members = [] \<rparr>"

definition amount_data :: "rat \<Rightarrow> jsdata" where
  "amount_data a = \<lparr> amount = Some a, members = [] \<rparr>"

definition demo_entries :: "(string \<times> entry) list" where
  "demo_entries =
     [(''k3j2'', \<lparr> type = ''xp'', data = Some (amount_data 5), t = ''2025-01-01T10:00:00.000Z'',
                  appId = ''app'', profileId = ''anon'' \<rparr>),
      (''9x0q'', \<lparr> type = ''heartbeat'', data = Some no_data, t = ''2025-01-01T10:00:15.000Z'',
                  appId = ''app'', profileId = ''anon'' \<rparr>)]"

text \<open>A chain of three records logged on three days; the last log is a click.\<close>

definition demo_engine :: engine where
  "demo_engine =
     logs demo_platform
       [(''k3j2'', ''2025-01-01T10:00:00.000Z'', ''xp'', Some (amount_data 5)),
        (''9x0q'', ''2025-01-02T08:30:00.000Z'', ''heartbeat'', Some no_data),
        (''p7mm'', ''2025-01-03T21:15:00.000Z'', ''click'', None)]
       fresh_engine"

text \<open>The engine after the first of these logs only.\<close>

definition local_engine :: engine where
  "local_engine =
     logs demo_platform
       [(''k3j2'', ''2025-01-01T10:00:00.000Z'', ''xp'', Some (amount_data 5))]
       fresh_engine"

text \<open>A chain written on another device, from its own empty chain.\<close>

definition foreign_engine :: engine where
  "foreign_engine =
     logs demo_platform
       [(''a1'', ''2025-02-01T09:00:00.000Z'', ''focus'', None),
        (''b2'', ''2025-02-01T09:05:00.000Z'', ''xp'', Some (amount_data 2))]
       \<lparr> options = \<lparr> opt_appId = ''app'', opt_profileId = ''guest'', opt_ui = False \<rparr>,
         lastHash = GENESIS,
         state = \<lparr> xp = 0, streak = 0, lastAt = 0, events = 0, rootHash = GENESIS \<rparr>,
         store = [],
         meta = None \<rparr>"

text \<open>Three logs where the clock was set back a day before the third.\<close>

definition backdated_engine :: engine where
  "backdated_engine =
     logs demo_platform
       [(''k3j2'', ''2025-01-01T10:00:00.000Z'', ''xp'', Some (amount_data 5)),
        (''9x0q'', ''2025-01-02T08:30:00.000Z'', ''heartbeat'', Some no_data),
        (''p7mm'', ''2025-01-01T21:15:00.000Z'', ''click'', None)]
       fresh_engine"

text \<open>One log of type xp with amount 0.\<close>

definition zero_amount_engine :: engine where
  "zero_amount_engine =
     logs demo_platform
       [(''k3j2'', ''2025-01-01T10:00:00.000Z'', ''xp'', Some (amount_data 0))]
       fresh_engine"

text \<open>The chain of \<open>demo_engine\<close> with the record at index 1 edited in the store: its type
  and data are changed, its stored hash is kept.\<close>

definition tampered_engine :: engine where
  "tampered_engine =
     demo_engine\<lparr> store :=
       (store demo_engine)
         [1 := (store demo_engine ! 1)\<lparr> e_type := ''xp'', e_data := Some (amount_data 1000) \<rparr>] \<rparr>"

text \<open>Two logs of the interactive types.\<close>

definition click_engine :: engine where
  "click_engine =
     logs demo_platform
       [(''k3j2'', ''2025-01-01T10:00:00.000Z'', ''click'', None),
        (''9x0q'', ''2025-01-01T10:00:07.000Z'', ''quest:complete'', Some no_data)]
       fresh_engine"

text \<open>The scenario of three logs, with its nonces and clock readings.\<close>

definition scenario_engine :: engine where
  "scenario_engine =
     logs demo_platform
       [(''k3j2'', ''2025-01-01T10:00:00.000Z'', ''xp'', Some (amount_data 5)),
        (''9x0q'', ''2025-01-01T10:00:07.000Z'', ''xp'', Some (amount_data 3)),
        (''p7mm'', ''2025-01-01T10:00:15.000Z'', ''heartbeat'', Some no_data)]
       fresh_engine"

subsection \<open>Objects and references: the snapshot of getState\<close>

text \<open>
  \<^verbatim>\<open>getState() { return JSON.parse(JSON.stringify({ ...state })); }\<close> is about object identity,
  so here values live in a heap: a value is a primitive or a reference to a cell, a cell is
  an object (its members in order) or an array, and the address of a cell is its index in the
  heap. Allocation appends a cell. \<open>VNonFinite\<close> stands for \<^verbatim>\<open>NaN\<close>, \<^verbatim>\<open>Infinity\<close> and
  \<^verbatim>\<open>-Infinity\<close>.
\<close>

datatype jsval =
    VUndef
  | VNull
  | VBool bool
  | VNum rat
  | VNonFinite
  | VStr string
  | VRef nat

datatype cell = CObj "(string \<times> jsval) list" | CArr "jsval list"

type_synonym heap = "cell list"

text \<open>The object that the module variable \<^verbatim>\<open>state\<close> refers to, for a given content.\<close>

definition state_obj :: "fstate \<Rightarrow> cell" where
  "state_obj st =
     CObj [(''xp'', VNum (xp st)), (''streak'', VNum (of_nat (streak st))),
           (''lastAt'', VNum (of_nat (lastAt st))), (''events'', VNum (of_nat (events st))),
           (''rootHash'', VStr (rootHash st))]"

text \<open>\<^verbatim>\<open>JSON.stringify\<close> as the tree it serialises. It follows references, and throws a
  TypeError (\<open>None\<close>) on an object that is among its own ancestors (\<open>stk\<close>). A non-finite
  number becomes \<^verbatim>\<open>null\<close>; a member whose value is \<^verbatim>\<open>undefined\<close> is left out of an object and
  becomes \<^verbatim>\<open>null\<close> in an array; \<^verbatim>\<open>undefined\<close> itself has no text, and parsing that fails
  (\<open>None\<close>). The recursion is on a depth \<open>n\<close>; every nested call adds a new address below the
  length of the heap to \<open>stk\<close>, so a depth above that length is never used up
  (\<open>to_json_depth_enough\<close> below).\<close>

fun to_json :: "nat \<Rightarrow> nat list \<Rightarrow> heap \<Rightarrow> jsval \<Rightarrow> json option" where
  "to_json n stk h VUndef = None"
| "to_json n stk h VNull = Some JNull"
| "to_json n stk h (VBool b) = Some (JBool b)"
| "to_json n stk h (VNum x) = Some (JNum x)"
| "to_json n stk h VNonFinite = Some JNull"
| "to_json n stk h (VStr s) = Some (JStr s)"
| "to_json 0 stk h (VRef a) = None"
| "to_json (Suc n) stk h (VRef a) =
     (if a \<in> set stk \<or> length h \<le> a then None
      else (case h ! a of
              CObj ps \<Rightarrow>
                map_option JObj
                  (those (map (\<lambda>p. map_option (Pair (fst p)) (to_json n (a # stk) h (snd p)))
                            (filter (\<lambda>p. snd p \<noteq> VUndef) ps)))
            | CArr vs \<Rightarrow>
                map_option JArr
                  (those (map (\<lambda>v. to_json n (a # stk) h (if v = VUndef then VNull else v))
                            vs))))"

text \<open>\<^verbatim>\<open>JSON.parse\<close> of such a tree: every object and array of the tree is a new cell.\<close>

fun from_json :: "json \<Rightarrow> heap \<Rightarrow> jsval \<times> heap"
  and from_members :: "(string \<times> json) list \<Rightarrow> heap \<Rightarrow> (string \<times> jsval) list \<times> heap"
  and from_elems :: "json list \<Rightarrow> heap \<Rightarrow> jsval list \<times> heap" where
  "from_json JNull h = (VNull, h)"
| "from_json (JBool b) h = (VBool b, h)"
| "from_json (JNum x) h = (VNum x, h)"
| "from_json (JStr s) h = (VStr s, h)"
| "from_json (JArr js) h =
     (case from_elems js h of (vs, h1) \<Rightarrow> (VRef (length h1), h1 @ [CArr vs]))"
| "from_json (JObj ms) h =
     (case from_members ms h of (ps, h1) \<Rightarrow> (VRef (length h1), h1 @ [CObj ps]))"
| "from_members [] h = ([], h)"
| "from_members ((k, j) # ms) h =
     (case from_json j h of (v, h1) \<Rightarrow>
        (case from_members ms h1 of (ps, h2) \<Rightarrow> ((k, v) # ps, h2)))"
| "from_elems [] h = ([], h)"
| "from_elems (j # js) h =
     (case from_json j h of (v, h1) \<Rightarrow>
        (case from_elems js h1 of (vs, h2) \<Rightarrow> (v # vs, h2)))"

text \<open>\<^verbatim>\<open>getState\<close> on the heap, with \<open>sa\<close> the address of the \<^verbatim>\<open>state\<close> object: the spread
  \<^verbatim>\<open>{ ...state }\<close> allocates a copy of the members, which is serialised and parsed. The result
  is the returned reference and the new heap, \<open>None\<close> when \<^verbatim>\<open>JSON.stringify\<close> throws. The
  variable \<^verbatim>\<open>state\<close> is bound once, to an object: an address that holds no object is left
  out (\<open>None\<close> as well).\<close>

definition getState_h :: "heap \<Rightarrow> nat \<Rightarrow> (jsval \<times> heap) option" where
  "getState_h h sa =
     (if length h \<le> sa then None
      else (case h ! sa of
              CArr vs \<Rightarrow> None
            | CObj ps \<Rightarrow>
                (let h1 = h @ [CObj ps] in
                 case to_json (Suc (length h1)) [] h1 (VRef (length h)) of
                   None \<Rightarrow> None
                 | Some j \<Rightarrow> Some (from_json j h1))))"

text \<open>The tree that \<^verbatim>\<open>getState\<close> serialises on the way: what its result is parsed from.\<close>

definition state_json :: "heap \<Rightarrow> nat \<Rightarrow> json option" where
  "state_json h sa =
     (if length h \<le> sa then None
      else (case h ! sa of
              CArr vs \<Rightarrow> None
            | CObj ps \<Rightarrow>
                to_json (Suc (length (h @ [CObj ps]))) [] (h @ [CObj ps]) (VRef (length h))))"

text \<open>The values a cell holds, and the cells a caller reaches from a value it holds.\<close>

fun cell_vals :: "cell \<Rightarrow> jsval list" where
  "cell_vals (CObj ps) = map snd ps"
| "cell_vals (CArr vs) = vs"

inductive_set reach :: "heap \<Rightarrow> jsval \<Rightarrow> nat set" for h :: heap and v :: jsval where
  reach_root: "v = VRef a \<Longrightarrow> a < length h \<Longrightarrow> a \<in> reach h v"
| reach_step: "a \<in> reach h v \<Longrightarrow> VRef c \<in> set (cell_vals (h ! a)) \<Longrightarrow> c < length h \<Longrightarrow> c \<in> reach h v"

text \<open>One step of a caller that holds the value \<open>r\<close> and nothing else of the heap: it may
  give new content to cells it reaches from \<open>r\<close> and allocate cells; every other cell keeps
  its content; the references it stores are to cells it reaches from \<open>r\<close> or has just
  allocated.\<close>

definition mutate :: "jsval \<Rightarrow> heap \<Rightarrow> heap \<Rightarrow> bool" where
  "mutate r h h' =
     (length h \<le> length h' \<and>
      (\<forall>a<length h. a \<notin> reach h r \<longrightarrow> h' ! a = h ! a) \<and>
      (\<forall>a<length h'. a \<in> reach h r \<or> length h \<le> a \<longrightarrow>
         (\<forall>c. VRef c \<in> set (cell_vals (h' ! a)) \<longrightarrow>
            c < length h' \<and> (c \<in> reach h r \<or> length h \<le> c))))"

text \<open>The references among \<open>vs\<close> lie in the range from \<open>lo\<close> up to \<open>hi\<close>; the cells of a
  heap from \<open>lo\<close> on refer to each other only.\<close>

definition fresh_refs :: "nat \<Rightarrow> nat \<Rightarrow> jsval list \<Rightarrow> bool" where
  "fresh_refs lo hi vs = (\<forall>c. VRef c \<in> set vs \<longrightarrow> lo \<le> c \<and> c < hi)"

definition region_closed :: "nat \<Rightarrow> heap \<Rightarrow> bool" where
  "region_closed lo h =
     (\<forall>a. lo \<le> a \<and> a < length h \<longrightarrow> fresh_refs lo (length h) (cell_vals (h ! a)))"

text \<open>A heap that holds nothing but the state object of the three-record engine, and one
  whose state object holds an array that holds an object.\<close>

definition demo_heap :: heap where
  "demo_heap = [state_obj (state demo_engine)]"

definition nested_heap :: heap where
  "nested_heap =
     [CObj [(''xp'', VNum 1), (''badges'', VRef 1), (''peak'', VNonFinite), (''note'', VUndef)],
      CArr [VStr ''first'', VRef 2],
      CObj [(''level'', VNum 3)]]"

text \<open>The heap after \<^verbatim>\<open>getState\<close> on it (the copy made by the spread at address 3, the
  snapshot at 6, its array at 5, the object in the array at 4), and that heap after the
  caller has overwritten the innermost object of the snapshot and put a new object, held
  in a new cell, into the snapshot.\<close>

definition nested_snapshot :: heap where
  "nested_snapshot =
     nested_heap @
     [CObj [(''xp'', VNum 1), (''badges'', VRef 1), (''peak'', VNonFinite), (''note'', VUndef)],
      CObj [(''level'', VNum 3)],
      CArr [VStr ''first'', VRef 4],
      CObj [(''xp'', VNum 1), (''badges'', VRef 5), (''peak'', VNull)]]"

definition nested_mutated :: heap where
  "nested_mutated =
     nested_heap @
     [CObj [(''xp'', VNum 1), (''badges'', VRef 1), (''peak'', VNonFinite), (''note'', VUndef)],
      CObj [(''level'', VNum 99)],
      CArr [VStr ''first'', VRef 4],
      CObj [(''xp'', VNum 1), (''badges'', VRef 5), (''peak'', VNull), (''extra'', VRef 7)],
      CObj [(''back'', VRef 6)]]"

section \<open>Auxiliary facts\<close>

lemma entry_of_mk_rec: "entry_of (mk_rec en p n h) = en"
  by (simp add: entry_of_def mk_rec_def)

lemma mk_rec_sel:
  "e_prev (mk_rec en p n h) = p" "e_nonce (mk_rec en p n h) = n" "e_hash (mk_rec en p n h) = h"
  "e_type (mk_rec en p n h) = type en" "e_data (mk_rec en p n h) = data en"
  "e_t (mk_rec en p n h) = t en"
  by (simp_all add: mk_rec_def)

lemma accrue_prev: "l_prev (accrue e s) = e_hash e"
  by (simp add: accrue_def Let_def)

lemma accrue_ok: "l_ok (accrue e s) = l_ok s"
  by (simp add: accrue_def Let_def)

lemma rebuild_loop_good:
  "rebuild_loop P es s =
     (fold accrue (good_prefix P (l_prev s) es) s)
       \<lparr> l_ok := (if good_prefix P (l_prev s) es = es then l_ok s else False) \<rparr>"
proof (induction es arbitrary: s)
  case Nil
  show ?case by simp
next
  case (Cons e es)
  show ?case
  proof (cases "e_prev e \<noteq> l_prev s \<or> recomputed P e \<noteq> e_hash e")
    case True
    then show ?thesis by auto
  next
    case False
    then show ?thesis using Cons.IH [of "accrue e s"]
      by (simp add: accrue_prev accrue_ok)
  qed
qed

lemma verify_loop_good:
  "verify_loop P es i p =
     (if good_prefix P p es = es then \<lparr> ok = True, errorIndex = None \<rparr>
      else \<lparr> ok = False, errorIndex = Some (i + length (good_prefix P p es)) \<rparr>)"
  by (induction es arbitrary: i p) auto

lemma good_prefix_take: "good_prefix P p es = take (length (good_prefix P p es)) es"
  by (induction es arbitrary: p) auto

lemma good_prefix_length: "length (good_prefix P p es) \<le> length es"
  by (induction es arbitrary: p) auto

lemma broken_at_Cons_Suc: "broken_at P p (e # es) (Suc i) = broken_at P (e_hash e) es i"
  by (cases i) (simp_all add: broken_at_def expected_prev_def)

lemma broken_at_Cons_0:
  "broken_at P p (e # es) 0 = (e_prev e \<noteq> p \<or> recomputed P e \<noteq> e_hash e)"
  by (simp add: broken_at_def expected_prev_def)

lemma first_broken_good_prefix:
  "broken_at P p es i \<Longrightarrow> (\<forall>j<i. \<not> broken_at P p es j) \<Longrightarrow> good_prefix P p es = take i es"
proof (induction es arbitrary: p i)
  case Nil
  then show ?case by simp
next
  case (Cons e es)
  show ?case
  proof (cases i)
    case 0
    with Cons.prems show ?thesis by (simp add: broken_at_Cons_0)
  next
    case (Suc k)
    with Cons.prems have b: "broken_at P (e_hash e) es k"
      by (simp add: broken_at_Cons_Suc)
    from Cons.prems Suc have "\<not> broken_at P p (e # es) 0" by blast
    then have g: "e_prev e = p \<and> recomputed P e = e_hash e"
      by (simp add: broken_at_Cons_0)
    have "\<forall>j<k. \<not> broken_at P (e_hash e) es j"
    proof (intro allI impI)
      fix j assume "j < k"
      then have "Suc j < i" using Suc by simp
      with Cons.prems have "\<not> broken_at P p (e # es) (Suc j)" by blast
      then show "\<not> broken_at P (e_hash e) es j" by (simp add: broken_at_Cons_Suc)
    qed
    with b have "good_prefix P (e_hash e) es = take k es" by (rule Cons.IH)
    with g Suc show ?thesis by simp
  qed
qed

lemma good_prefix_first_broken:
  "good_prefix P p es \<noteq> es \<Longrightarrow>
     broken_at P p es (length (good_prefix P p es)) \<and>
     (\<forall>j<length (good_prefix P p es). \<not> broken_at P p es j)"
proof (induction es arbitrary: p)
  case Nil
  then show ?case by simp
next
  case (Cons e es)
  show ?case
  proof (cases "e_prev e \<noteq> p \<or> recomputed P e \<noteq> e_hash e")
    case True
    then show ?thesis by (auto simp: broken_at_Cons_0)
  next
    case False
    with Cons.prems have "good_prefix P (e_hash e) es \<noteq> es" by auto
    from Cons.IH [OF this] False show ?thesis
      by (auto simp: broken_at_Cons_Suc broken_at_Cons_0 less_Suc_eq_0_disj)
  qed
qed

lemma import_loop_none:
  "\<forall>e\<in>set es. e_prev e \<noteq> p \<Longrightarrow> import_loop es (g, p, m) = (g, p, m)"
  by (induction es) auto


lemma good_prefix_snoc:
  "good_prefix P p (es @ [e]) =
     (if good_prefix P p es = es
      then (if e_prev e \<noteq> (if es = [] then p else e_hash (last es)) \<or> recomputed P e \<noteq> e_hash e
            then es else es @ [e])
      else good_prefix P p es)"
  by (induction es arbitrary: p) auto

lemma appendEvent_store:
  "store (snd (appendEvent P n en g)) =
     store g @ [mk_rec en (lastHash g) n
                  (sha256Hex P (lastHash g @ ''|'' @ JSON_stringify P en @ ''|'' @ n))]"
  by (simp add: appendEvent_def Let_def saveMeta_def)

lemma appendEvent_lastHash:
  "lastHash (snd (appendEvent P n en g)) =
     sha256Hex P (lastHash g @ ''|'' @ JSON_stringify P en @ ''|'' @ n)"
  by (simp add: appendEvent_def Let_def saveMeta_def)

lemma recomputed_mk_rec:
  "recomputed P (mk_rec en p n h) = sha256Hex P (p @ ''|'' @ JSON_stringify P en @ ''|'' @ n)"
  by (simp add: recomputed_def entry_of_mk_rec mk_rec_sel)

lemma appendEvent_inv:
  assumes "good_prefix P GENESIS (store g) = store g"
    and "lastHash g = (if store g = [] then GENESIS else e_hash (last (store g)))"
  shows "good_prefix P GENESIS (store (snd (appendEvent P n en g))) = store (snd (appendEvent P n en g))
       \<and> lastHash (snd (appendEvent P n en g)) = e_hash (last (store (snd (appendEvent P n en g))))
       \<and> store (snd (appendEvent P n en g)) \<noteq> []"
  using assms
  by (simp add: appendEvent_store appendEvent_lastHash good_prefix_snoc recomputed_mk_rec mk_rec_sel)

lemma appendEvents_length:
  "length (store (appendEvents P xs g)) = length (store g) + length xs"
proof (induction xs arbitrary: g)
  case Nil
  show ?case by simp
next
  case (Cons x xs)
  obtain n en where x: "x = (n, en)" by (cases x)
  show ?case using Cons.IH [of "snd (appendEvent P n en g)"]
    by (simp add: x appendEvent_store)
qed

lemma appendEvents_inv:
  "good_prefix P GENESIS (store g) = store g \<Longrightarrow>
   lastHash g = (if store g = [] then GENESIS else e_hash (last (store g))) \<Longrightarrow>
   good_prefix P GENESIS (store (appendEvents P xs g)) = store (appendEvents P xs g)
   \<and> lastHash (appendEvents P xs g) =
       (if store (appendEvents P xs g) = [] then GENESIS
        else e_hash (last (store (appendEvents P xs g))))
   \<and> (xs \<noteq> [] \<longrightarrow> store (appendEvents P xs g) \<noteq> [])"
proof (induction xs arbitrary: g)
  case Nil
  then show ?case by simp
next
  case (Cons x xs)
  obtain n en where x: "x = (n, en)" by (cases x)
  let ?g = "snd (appendEvent P n en g)"
  from appendEvent_inv [OF Cons.prems, of n en]
  have a: "good_prefix P GENESIS (store ?g) = store ?g"
    and b: "lastHash ?g = e_hash (last (store ?g))" and c: "store ?g \<noteq> []"
    by blast+
  from b c have b': "lastHash ?g = (if store ?g = [] then GENESIS else e_hash (last (store ?g)))"
    by simp
  from c have "store (appendEvents P xs ?g) \<noteq> []"
    using appendEvents_length [of P xs ?g] by auto
  with Cons.IH [OF a b'] show ?case
    by (simp add: x)
qed


lemma fold_accrue_prev:
  "l_prev (fold accrue es s) = (if es = [] then l_prev s else e_hash (last es))"
  by (induction es arbitrary: s) (auto simp: accrue_prev)

lemma fold_accrue_ok: "l_ok (fold accrue es s) = l_ok s"
  by (induction es arbitrary: s) (auto simp: accrue_ok)

lemma accrue_xp:
  "l_xp (accrue e s) =
     l_xp s + (if e_type e = ''xp'' then amount_or_default (e_data e) else 0)
            + (if e_type e = ''heartbeat'' then 1 / 10 else 0)"
  by (simp add: accrue_def Let_def)

lemma accrue_streak:
  "l_streak (accrue e s) =
     (if take 10 (e_t e) \<noteq> [] \<and> Some (take 10 (e_t e)) \<noteq> l_lastDay s
      then l_streak s + 1 else l_streak s)"
  by (simp add: accrue_def Let_def)

lemma accrue_lastDay:
  "l_lastDay (accrue e s) =
     (if take 10 (e_t e) \<noteq> [] \<and> Some (take 10 (e_t e)) \<noteq> l_lastDay s
      then Some (take 10 (e_t e)) else l_lastDay s)"
  by (simp add: accrue_def Let_def)

lemma fold_accrue_no_xp:
  "\<forall>e\<in>set es. e_type e \<noteq> ''xp'' \<and> e_type e \<noteq> ''heartbeat'' \<Longrightarrow>
     l_xp (fold accrue es s) = l_xp s"
  by (induction es arbitrary: s) (auto simp: accrue_xp)

lemma good_prefix_subset: "set (good_prefix P p es) \<subseteq> set es"
  by (metis good_prefix_take set_take_subset)

lemma days_Cons:
  "days (e # es) = (if e_t e = [] then days es else take 10 (e_t e) # days es)"
  by (simp add: days_def)

lemma fold_accrue_streak:
  "l_streak (fold accrue es s) =
     l_streak s + (case l_lastDay s of None \<Rightarrow> length (remdups_adj (days es))
                   | Some d \<Rightarrow> length (remdups_adj (d # days es)) - 1)"
proof (induction es arbitrary: s)
  case Nil
  show ?case by (simp add: days_def split: option.splits)
next
  case (Cons e es)
  show ?case
  proof (cases "e_t e = []")
    case True
    then have "l_streak (accrue e s) = l_streak s" "l_lastDay (accrue e s) = l_lastDay s"
      by (simp_all add: accrue_streak accrue_lastDay)
    with True Cons.IH [of "accrue e s"] show ?thesis
      by (simp add: days_Cons split: option.splits)
  next
    case False
    show ?thesis
    proof (cases "Some (take 10 (e_t e)) = l_lastDay s")
      case True
      then have "l_streak (accrue e s) = l_streak s" "l_lastDay (accrue e s) = l_lastDay s"
        by (simp_all add: accrue_streak accrue_lastDay)
      with True False Cons.IH [of "accrue e s"] show ?thesis
        by (auto simp: days_Cons split: option.splits)
    next
      case ne: False
      with False have "l_streak (accrue e s) = l_streak s + 1"
        "l_lastDay (accrue e s) = Some (take 10 (e_t e))"
        by (simp_all add: accrue_streak accrue_lastDay)
      with ne False Cons.IH [of "accrue e s"] show ?thesis
        by (auto simp: days_Cons split: option.splits)
    qed
  qed
qed

lemma rebuild_store: "store (snd (rebuildFromZero P g)) = store g"
  by (simp add: rebuildFromZero_def Let_def saveMeta_def)

lemma rebuild_fields:
  "fst (rebuildFromZero P g) = \<lparr> ok = l_ok (rebuild_loop P (store g) loop_init), errorIndex = None \<rparr>"
  "lastHash (snd (rebuildFromZero P g)) = l_prev (rebuild_loop P (store g) loop_init)"
  "rootHash (state (snd (rebuildFromZero P g))) = l_prev (rebuild_loop P (store g) loop_init)"
  "xp (state (snd (rebuildFromZero P g))) = of_int (round (l_xp (rebuild_loop P (store g) loop_init)))"
  "streak (state (snd (rebuildFromZero P g))) = l_streak (rebuild_loop P (store g) loop_init)"
  "events (state (snd (rebuildFromZero P g))) = length (store g)"
  "lastAt (state (snd (rebuildFromZero P g))) = lastAt (state g)"
  "meta (snd (rebuildFromZero P g)) =
     Some (lastHash (snd (rebuildFromZero P g)), state (snd (rebuildFromZero P g)))"
  "options (snd (rebuildFromZero P g)) = options g"
  by (simp_all add: rebuildFromZero_def Let_def saveMeta_def)

lemma rebuild_loop_fields:
  "l_prev (rebuild_loop P es s) =
     (if good_prefix P (l_prev s) es = [] then l_prev s else e_hash (last (good_prefix P (l_prev s) es)))"
  "l_xp (rebuild_loop P es s) = l_xp (fold accrue (good_prefix P (l_prev s) es) s)"
  "l_streak (rebuild_loop P es s) = l_streak (fold accrue (good_prefix P (l_prev s) es) s)"
  "l_ok (rebuild_loop P es s) = (l_ok s \<and> good_prefix P (l_prev s) es = es)"
  by (simp_all add: rebuild_loop_good [of P es s] fold_accrue_prev fold_accrue_ok)

lemma loop_init_sel:
  "l_prev loop_init = GENESIS" "l_ok loop_init" "l_xp loop_init = 0" "l_streak loop_init = 0"
  "l_lastDay loop_init = None"
  by (simp_all add: loop_init_def)

lemma first_broken_iff:
  "first_broken P es i \<longleftrightarrow> good_prefix P GENESIS es \<noteq> es \<and> i = length (good_prefix P GENESIS es)"
proof
  assume fb: "first_broken P es i"
  then have b: "broken_at P GENESIS es i" and nb: "\<forall>j<i. \<not> broken_at P GENESIS es j"
    by (auto simp: first_broken_def list_all_iff)
  then have gp: "good_prefix P GENESIS es = take i es"
    by (rule first_broken_good_prefix)
  from b have "i < length es" by (simp add: broken_at_def)
  with gp show "good_prefix P GENESIS es \<noteq> es \<and> i = length (good_prefix P GENESIS es)"
    by (metis length_take less_irrefl_nat min.absorb4)
next
  assume "good_prefix P GENESIS es \<noteq> es \<and> i = length (good_prefix P GENESIS es)"
  with good_prefix_first_broken [of P GENESIS es] show "first_broken P es i"
    by (auto simp: first_broken_def list_all_iff)
qed

lemma verify_fails_iff:
  "verify P g = \<lparr> ok = False, errorIndex = Some i \<rparr> \<longleftrightarrow> first_broken P (store g) i"
  by (auto simp: verify_def verify_loop_good first_broken_iff)

lemma verify_ok_iff: "ok (verify P g) \<longleftrightarrow> good_prefix P GENESIS (store g) = store g"
  by (simp add: verify_def verify_loop_good)

lemma log_store:
  "store (snd (log P n now ty d g)) = store g @ [fst (log P n now ty d g)]"
  by (simp add: log_def Let_def appendEvent_def saveMeta_def split: prod.splits)

lemma log_rec:
  "e_type (fst (log P n now ty d g)) = ty"
  "e_data (fst (log P n now ty d g)) =
     Some (case d of None \<Rightarrow> \<lparr> amount = None, members = [] \<rparr> | Some m \<Rightarrow> m)"
  "e_t (fst (log P n now ty d g)) = now"
  "e_prev (fst (log P n now ty d g)) = lastHash g"
  "recomputed P (fst (log P n now ty d g)) = e_hash (fst (log P n now ty d g))"
  "lastHash (snd (log P n now ty d g)) = e_hash (fst (log P n now ty d g))"
  by (simp_all add: log_def Let_def appendEvent_def saveMeta_def mk_rec_def recomputed_def
      entry_of_def split: prod.splits)

lemma log_state:
  "events (state (snd (log P n now ty d g))) = events (state g) + 1"
  "xp (state (snd (log P n now ty d g))) =
     xp (state g) + (if ty = ''click'' \<or> ty = ''quest:complete'' then 1 else 0)"
  "rootHash (state (snd (log P n now ty d g))) = e_hash (fst (log P n now ty d g))"
  "streak (state (snd (log P n now ty d g))) = streak (state g)"
  by (simp_all add: log_def Let_def appendEvent_def saveMeta_def mk_rec_def split: prod.splits)

lemma log_inv:
  assumes "good_prefix P GENESIS (store g) = store g"
    and "lastHash g = (if store g = [] then GENESIS else e_hash (last (store g)))"
  shows "good_prefix P GENESIS (store (snd (log P n now ty d g))) = store (snd (log P n now ty d g))"
    and "lastHash (snd (log P n now ty d g)) =
          (if store (snd (log P n now ty d g)) = [] then GENESIS
           else e_hash (last (store (snd (log P n now ty d g)))))"
  using assms by (simp_all add: log_store log_rec good_prefix_snoc)

lemma importLog_Some:
  "importLog P (Some es) g =
     (\<lparr> i_ok = True, merged = snd (snd (import_loop es (g, rootHash (state g), 0))) \<rparr>,
      snd (rebuildFromZero P (fst (import_loop es (g, rootHash (state g), 0)))))"
  by (simp add: importLog_def Let_def split: prod.splits)


lemma rebuild_idem:
  "getState (snd (rebuildFromZero P (snd (rebuildFromZero P g)))) =
     getState (snd (rebuildFromZero P g))"
  by (simp add: rebuildFromZero_def Let_def saveMeta_def getState_def)

lemma logs_inv:
  "good_prefix P GENESIS (store g) = store g \<Longrightarrow>
   lastHash g = (if store g = [] then GENESIS else e_hash (last (store g))) \<Longrightarrow>
   good_prefix P GENESIS (store (logs P xs g)) = store (logs P xs g)"
proof (induction xs arbitrary: g)
  case Nil
  then show ?case by simp
next
  case (Cons x xs)
  obtain n now ty d where x: "x = (n, now, ty, d)" by (cases x)
  from log_inv [OF Cons.prems, of n now ty d]
  have "good_prefix P GENESIS (store (logs P xs (snd (log P n now ty d g)))) =
      store (logs P xs (snd (log P n now ty d g)))"
    by (rule Cons.IH)
  then show ?case by (simp add: x)
qed

lemma logs_verify:
  "store g = [] \<Longrightarrow> lastHash g = GENESIS \<Longrightarrow> ok (verify P (logs P xs g))"
  using logs_inv [of P g xs] by (simp add: verify_ok_iff)


lemma good_prefix_none_broken:
  "good_prefix P p es = es \<Longrightarrow> \<not> broken_at P p es j"
proof (induction es arbitrary: p j)
  case Nil
  show ?case by (simp add: broken_at_def)
next
  case (Cons e es)
  from Cons.prems have g: "e_prev e = p \<and> recomputed P e = e_hash e"
    and r: "good_prefix P (e_hash e) es = es"
    by (auto split: if_splits)
  show ?case
  proof (cases j)
    case 0
    with g show ?thesis by (simp add: broken_at_Cons_0)
  next
    case (Suc k)
    with Cons.IH [OF r, of k] show ?thesis by (simp add: broken_at_Cons_Suc)
  qed
qed


text \<open>The example engines, evaluated once: these equations replace the definitions when a
  later fact is evaluated.\<close>

lemma demo_engine_value [code]:
  "demo_engine =
     \<lparr>options = \<lparr>opt_appId = ''app'', opt_profileId = ''anon'',
       opt_ui = True\<rparr>,
       lastHash = ''0000007c00000000000000000000000000000000000000000000000000000000'',
       state = \<lparr>xp = 1, streak = 0, lastAt = 0, events = 3,
       rootHash = ''0000007c00000000000000000000000000000000000000000000000000000000''\<rparr>,
       store = [\<lparr>e_type = ''xp'', e_data = Some \<lparr>amount = Some 5,
       members = []\<rparr>, e_t = ''2025-01-01T10:00:00.000Z'', e_appId = ''app'',
       e_profileId = ''anon'', e_prev = ''GENESIS'', e_nonce = ''k3j2'',
       e_hash = ''0000001f00000000000000000000000000000000000000000000000000000000''\<rparr>,
       \<lparr>e_type = ''heartbeat'', e_data = Some \<lparr>amount = None,
       members = []\<rparr>, e_t = ''2025-01-02T08:30:00.000Z'', e_appId = ''app'',
       e_profileId = ''anon'',
       e_prev = ''0000001f00000000000000000000000000000000000000000000000000000000'',
       e_nonce = ''9x0q'',
       e_hash = ''0000007100000000000000000000000000000000000000000000000000000000''\<rparr>,
       \<lparr>e_type = ''click'', e_data = Some \<lparr>amount = None, members = []\<rparr>,
       e_t = ''2025-01-03T21:15:00.000Z'', e_appId = ''app'', e_profileId = ''anon'',
       e_prev = ''0000007100000000000000000000000000000000000000000000000000000000'',
       e_nonce = ''p7mm'',
       e_hash = ''0000007c00000000000000000000000000000000000000000000000000000000''\<rparr>],
       meta = Some (''0000007c00000000000000000000000000000000000000000000000000000000'',
       \<lparr>xp = 0, streak = 0, lastAt = 0, events = 3,
       rootHash = ''0000007c00000000000000000000000000000000000000000000000000000000''\<rparr>)\<rparr>"
  by code_simp

lemma local_engine_value [code]:
  "local_engine =
     \<lparr>options = \<lparr>opt_appId = ''app'', opt_profileId = ''anon'',
       opt_ui = True\<rparr>,
       lastHash = ''0000001f00000000000000000000000000000000000000000000000000000000'',
       state = \<lparr>xp = 0, streak = 0, lastAt = 0, events = 1,
       rootHash = ''0000001f00000000000000000000000000000000000000000000000000000000''\<rparr>,
       store = [\<lparr>e_type = ''xp'', e_data = Some \<lparr>amount = Some 5,
       members = []\<rparr>, e_t = ''2025-01-01T10:00:00.000Z'', e_appId = ''app'',
       e_profileId = ''anon'', e_prev = ''GENESIS'', e_nonce = ''k3j2'',
       e_hash = ''0000001f00000000000000000000000000000000000000000000000000000000''\<rparr>],
       meta = Some (''0000001f00000000000000000000000000000000000000000000000000000000'',
       \<lparr>xp = 0, streak = 0, lastAt = 0, events = 1,
       rootHash = ''0000001f00000000000000000000000000000000000000000000000000000000''\<rparr>)\<rparr>"
  by code_simp

lemma foreign_engine_value [code]:
  "foreign_engine =
     \<lparr>options = \<lparr>opt_appId = ''app'', opt_profileId = ''guest'',
       opt_ui = False\<rparr>,
       lastHash = ''0000002f00000000000000000000000000000000000000000000000000000000'',
       state = \<lparr>xp = 0, streak = 0, lastAt = 0, events = 2,
       rootHash = ''0000002f00000000000000000000000000000000000000000000000000000000''\<rparr>,
       store = [\<lparr>e_type = ''focus'', e_data = Some \<lparr>amount = None,
       members = []\<rparr>, e_t = ''2025-02-01T09:00:00.000Z'', e_appId = ''app'',
       e_profileId = ''guest'', e_prev = ''GENESIS'', e_nonce = ''a1'',
       e_hash = ''0000005e00000000000000000000000000000000000000000000000000000000''\<rparr>,
       \<lparr>e_type = ''xp'', e_data = Some \<lparr>amount = Some 2, members = []\<rparr>,
       e_t = ''2025-02-01T09:05:00.000Z'', e_appId = ''app'', e_profileId = ''guest'',
       e_prev = ''0000005e00000000000000000000000000000000000000000000000000000000'',
       e_nonce = ''b2'',
       e_hash = ''0000002f00000000000000000000000000000000000000000000000000000000''\<rparr>],
       meta = Some (''0000002f00000000000000000000000000000000000000000000000000000000'',
       \<lparr>xp = 0, streak = 0, lastAt = 0, events = 2,
       rootHash = ''0000002f00000000000000000000000000000000000000000000000000000000''\<rparr>)\<rparr>"
  by code_simp

lemma backdated_engine_value [code]:
  "backdated_engine =
     \<lparr>options = \<lparr>opt_appId = ''app'', opt_profileId = ''anon'',
       opt_ui = True\<rparr>,
       lastHash = ''0000007e00000000000000000000000000000000000000000000000000000000'',
       state = \<lparr>xp = 1, streak = 0, lastAt = 0, events = 3,
       rootHash = ''0000007e00000000000000000000000000000000000000000000000000000000''\<rparr>,
       store = [\<lparr>e_type = ''xp'', e_data = Some \<lparr>amount = Some 5,
       members = []\<rparr>, e_t = ''2025-01-01T10:00:00.000Z'', e_appId = ''app'',
       e_profileId = ''anon'', e_prev = ''GENESIS'', e_nonce = ''k3j2'',
       e_hash = ''0000001f00000000000000000000000000000000000000000000000000000000''\<rparr>,
       \<lparr>e_type = ''heartbeat'', e_data = Some \<lparr>amount = None,
       members = []\<rparr>, e_t = ''2025-01-02T08:30:00.000Z'', e_appId = ''app'',
       e_profileId = ''anon'',
       e_prev = ''0000001f00000000000000000000000000000000000000000000000000000000'',
       e_nonce = ''9x0q'',
       e_hash = ''0000007100000000000000000000000000000000000000000000000000000000''\<rparr>,
       \<lparr>e_type = ''click'', e_data = Some \<lparr>amount = None, members = []\<rparr>,
       e_t = ''2025-01-01T21:15:00.000Z'', e_appId = ''app'', e_profileId = ''anon'',
       e_prev = ''0000007100000000000000000000000000000000000000000000000000000000'',
       e_nonce = ''p7mm'',
       e_hash = ''0000007e00000000000000000000000000000000000000000000000000000000''\<rparr>],
       meta = Some (''0000007e00000000000000000000000000000000000000000000000000000000'',
       \<lparr>xp = 0, streak = 0, lastAt = 0, events = 3,
       rootHash = ''0000007e00000000000000000000000000000000000000000000000000000000''\<rparr>)\<rparr>"
  by code_simp

lemma zero_amount_engine_value [code]:
  "zero_amount_engine =
     \<lparr>options = \<lparr>opt_appId = ''app'', opt_profileId = ''anon'',
       opt_ui = True\<rparr>,
       lastHash = ''0000001f00000000000000000000000000000000000000000000000000000000'',
       state = \<lparr>xp = 0, streak = 0, lastAt = 0, events = 1,
       rootHash = ''0000001f00000000000000000000000000000000000000000000000000000000''\<rparr>,
       store = [\<lparr>e_type = ''xp'', e_data = Some \<lparr>amount = Some 0,
       members = []\<rparr>, e_t = ''2025-01-01T10:00:00.000Z'', e_appId = ''app'',
       e_profileId = ''anon'', e_prev = ''GENESIS'', e_nonce = ''k3j2'',
       e_hash = ''0000001f00000000000000000000000000000000000000000000000000000000''\<rparr>],
       meta = Some (''0000001f00000000000000000000000000000000000000000000000000000000'',
       \<lparr>xp = 0, streak = 0, lastAt = 0, events = 1,
       rootHash = ''0000001f00000000000000000000000000000000000000000000000000000000''\<rparr>)\<rparr>"
  by code_simp

lemma click_engine_value [code]:
  "click_engine =
     \<lparr>options = \<lparr>opt_appId = ''app'', opt_profileId = ''anon'',
       opt_ui = True\<rparr>,
       lastHash = ''0000000b00000000000000000000000000000000000000000000000000000000'',
       state = \<lparr>xp = 2, streak = 0, lastAt = 0, events = 2,
       rootHash = ''0000000b00000000000000000000000000000000000000000000000000000000''\<rparr>,
       store = [\<lparr>e_type = ''click'', e_data = Some \<lparr>amount = None,
       members = []\<rparr>, e_t = ''2025-01-01T10:00:00.000Z'', e_appId = ''app'',
       e_profileId = ''anon'', e_prev = ''GENESIS'', e_nonce = ''k3j2'',
       e_hash = ''0000007900000000000000000000000000000000000000000000000000000000''\<rparr>,
       \<lparr>e_type = ''quest:complete'', e_data = Some \<lparr>amount = None,
       members = []\<rparr>, e_t = ''2025-01-01T10:00:07.000Z'', e_appId = ''app'',
       e_profileId = ''anon'',
       e_prev = ''0000007900000000000000000000000000000000000000000000000000000000'',
       e_nonce = ''9x0q'',
       e_hash = ''0000000b00000000000000000000000000000000000000000000000000000000''\<rparr>],
       meta = Some (''0000000b00000000000000000000000000000000000000000000000000000000'',
       \<lparr>xp = 1, streak = 0, lastAt = 0, events = 2,
       rootHash = ''0000000b00000000000000000000000000000000000000000000000000000000''\<rparr>)\<rparr>"
  by code_simp

lemma scenario_engine_value [code]:
  "scenario_engine =
     \<lparr>options = \<lparr>opt_appId = ''app'', opt_profileId = ''anon'',
       opt_ui = True\<rparr>,
       lastHash = ''0000003a00000000000000000000000000000000000000000000000000000000'',
       state = \<lparr>xp = 0, streak = 0, lastAt = 0, events = 3,
       rootHash = ''0000003a00000000000000000000000000000000000000000000000000000000''\<rparr>,
       store = [\<lparr>e_type = ''xp'', e_data = Some \<lparr>amount = Some 5,
       members = []\<rparr>, e_t = ''2025-01-01T10:00:00.000Z'', e_appId = ''app'',
       e_profileId = ''anon'', e_prev = ''GENESIS'', e_nonce = ''k3j2'',
       e_hash = ''0000001f00000000000000000000000000000000000000000000000000000000''\<rparr>,
       \<lparr>e_type = ''xp'', e_data = Some \<lparr>amount = Some 3, members = []\<rparr>,
       e_t = ''2025-01-01T10:00:07.000Z'', e_appId = ''app'', e_profileId = ''anon'',
       e_prev = ''0000001f00000000000000000000000000000000000000000000000000000000'',
       e_nonce = ''9x0q'',
       e_hash = ''0000000f00000000000000000000000000000000000000000000000000000000''\<rparr>,
       \<lparr>e_type = ''heartbeat'', e_data = Some \<lparr>amount = None,
       members = []\<rparr>, e_t = ''2025-01-01T10:00:15.000Z'', e_appId = ''app'',
       e_profileId = ''anon'',
       e_prev = ''0000000f00000000000000000000000000000000000000000000000000000000'',
       e_nonce = ''p7mm'',
       e_hash = ''0000003a00000000000000000000000000000000000000000000000000000000''\<rparr>],
       meta = Some (''0000003a00000000000000000000000000000000000000000000000000000000'',
       \<lparr>xp = 0, streak = 0, lastAt = 0, events = 3,
       rootHash = ''0000003a00000000000000000000000000000000000000000000000000000000''\<rparr>)\<rparr>"
  by code_simp


text \<open>The cells that \<^verbatim>\<open>JSON.parse\<close> allocates: the heap is extended, the value and the new
  cells refer to new cells only.\<close>

lemma fresh_refs_mono:
  "fresh_refs lo hi vs \<Longrightarrow> lo' \<le> lo \<Longrightarrow> hi \<le> hi' \<Longrightarrow> fresh_refs lo' hi' vs"
  by (fastforce simp: fresh_refs_def)

lemma fresh_refs_prim:
  "fresh_refs lo hi [VUndef]" "fresh_refs lo hi [VNull]" "fresh_refs lo hi [VBool b]"
  "fresh_refs lo hi [VNum x]" "fresh_refs lo hi [VNonFinite]" "fresh_refs lo hi [VStr s]"
  "fresh_refs lo hi []"
  by (simp_all add: fresh_refs_def)

lemma region_closed_append:
  assumes "region_closed N h" and "N \<le> length h"
    and "fresh_refs N (Suc (length h)) (cell_vals c)"
  shows "region_closed N (h @ [c])"
  unfolding region_closed_def
proof (intro allI impI)
  fix a assume a: "N \<le> a \<and> a < length (h @ [c])"
  show "fresh_refs N (length (h @ [c])) (cell_vals ((h @ [c]) ! a))"
  proof (cases "a < length h")
    case True
    with a assms(1) have "fresh_refs N (length h) (cell_vals (h ! a))"
      by (simp add: region_closed_def)
    then have "fresh_refs N (Suc (length h)) (cell_vals (h ! a))"
      by (rule fresh_refs_mono) simp_all
    with True show ?thesis by (simp add: nth_append)
  next
    case False
    with a have "a = length h" by simp
    with assms(3) show ?thesis by simp
  qed
qed

lemma from_json_fresh:
  "from_json j h = (v, h') \<Longrightarrow> N \<le> length h \<Longrightarrow> region_closed N h \<Longrightarrow>
     (\<exists>ext. h' = h @ ext) \<and> fresh_refs (length h) (length h') [v] \<and> region_closed N h'"
  "from_members ms h = (ps, h') \<Longrightarrow> N \<le> length h \<Longrightarrow> region_closed N h \<Longrightarrow>
     (\<exists>ext. h' = h @ ext) \<and> fresh_refs (length h) (length h') (map snd ps) \<and> region_closed N h'"
  "from_elems js h = (vs, h') \<Longrightarrow> N \<le> length h \<Longrightarrow> region_closed N h \<Longrightarrow>
     (\<exists>ext. h' = h @ ext) \<and> fresh_refs (length h) (length h') vs \<and> region_closed N h'"
proof (induction j h and ms h and js h arbitrary: v h' and ps h' and vs h'
    rule: from_json_from_members_from_elems.induct)
  case (5 js h)
  obtain us h1 where e: "from_elems js h = (us, h1)" by (cases "from_elems js h")
  from "5.IH" [OF e "5.prems"(2,3)] obtain ext where x: "h1 = h @ ext"
    and f: "fresh_refs (length h) (length h1) us" and r: "region_closed N h1"
    by blast
  from "5.prems"(1) e have v: "v = VRef (length h1)" and h': "h' = h1 @ [CArr us]"
    by simp_all
  from x "5.prems"(2) have n1: "N \<le> length h1" by simp
  have "fresh_refs N (Suc (length h1)) (cell_vals (CArr us))"
    using fresh_refs_mono [OF f, of N "Suc (length h1)"] "5.prems"(2) by simp
  with r n1 have "region_closed N (h1 @ [CArr us])" by (rule region_closed_append)
  with x v h' show ?case by (simp add: fresh_refs_def)
next
  case (6 ms h)
  obtain qs h1 where e: "from_members ms h = (qs, h1)" by (cases "from_members ms h")
  from "6.IH" [OF e "6.prems"(2,3)] obtain ext where x: "h1 = h @ ext"
    and f: "fresh_refs (length h) (length h1) (map snd qs)" and r: "region_closed N h1"
    by blast
  from "6.prems"(1) e have v: "v = VRef (length h1)" and h': "h' = h1 @ [CObj qs]"
    by simp_all
  from x "6.prems"(2) have n1: "N \<le> length h1" by simp
  have "fresh_refs N (Suc (length h1)) (cell_vals (CObj qs))"
    using fresh_refs_mono [OF f, of N "Suc (length h1)"] "6.prems"(2) by simp
  with r n1 have "region_closed N (h1 @ [CObj qs])" by (rule region_closed_append)
  with x v h' show ?case by (simp add: fresh_refs_def)
next
  case (8 k j ms h)
  obtain u h1 where e1: "from_json j h = (u, h1)" by (cases "from_json j h")
  obtain qs h2 where e2: "from_members ms h1 = (qs, h2)" by (cases "from_members ms h1")
  from "8.IH"(1) [OF e1 "8.prems"(2,3)] obtain ext1 where x1: "h1 = h @ ext1"
    and f1: "fresh_refs (length h) (length h1) [u]" and r1: "region_closed N h1"
    by blast
  from x1 "8.prems"(2) have n1: "N \<le> length h1" by simp
  from "8.IH"(2) [OF e1 [symmetric] e2 n1 r1] obtain ext2 where x2: "h2 = h1 @ ext2"
    and f2: "fresh_refs (length h1) (length h2) (map snd qs)" and r2: "region_closed N h2"
    by blast
  from "8.prems"(1) e1 e2 have ps: "ps = (k, u) # qs" and h': "h' = h2" by simp_all
  have "fresh_refs (length h) (length h2) [u]"
    using fresh_refs_mono [OF f1, of "length h" "length h2"] x2 by simp
  moreover have "fresh_refs (length h) (length h2) (map snd qs)"
    using fresh_refs_mono [OF f2, of "length h" "length h2"] x1 by simp
  ultimately have "fresh_refs (length h) (length h2) (map snd ps)"
    by (auto simp: ps fresh_refs_def)
  with x1 x2 r2 h' show ?case by simp
next
  case (10 j js h)
  obtain u h1 where e1: "from_json j h = (u, h1)" by (cases "from_json j h")
  obtain us h2 where e2: "from_elems js h1 = (us, h2)" by (cases "from_elems js h1")
  from "10.IH"(1) [OF e1 "10.prems"(2,3)] obtain ext1 where x1: "h1 = h @ ext1"
    and f1: "fresh_refs (length h) (length h1) [u]" and r1: "region_closed N h1"
    by blast
  from x1 "10.prems"(2) have n1: "N \<le> length h1" by simp
  from "10.IH"(2) [OF e1 [symmetric] e2 n1 r1] obtain ext2 where x2: "h2 = h1 @ ext2"
    and f2: "fresh_refs (length h1) (length h2) us" and r2: "region_closed N h2"
    by blast
  from "10.prems"(1) e1 e2 have vs: "vs = u # us" and h': "h' = h2" by simp_all
  have "fresh_refs (length h) (length h2) [u]"
    using fresh_refs_mono [OF f1, of "length h" "length h2"] x2 by simp
  moreover have "fresh_refs (length h) (length h2) us"
    using fresh_refs_mono [OF f2, of "length h" "length h2"] x1 by simp
  ultimately have "fresh_refs (length h) (length h2) vs"
    by (auto simp: vs fresh_refs_def)
  with x1 x2 r2 h' show ?case by simp
qed (auto simp: fresh_refs_def)


text \<open>What a caller reaches from a value of that kind, and what its steps preserve.\<close>

lemma reach_region:
  assumes "region_closed N hx" and "fresh_refs N (length hx) [r]" and "a \<in> reach hx r"
  shows "N \<le> a \<and> a < length hx"
  using assms(3)
proof (induction rule: reach.induct)
  case (reach_root a)
  with assms(2) show ?case by (simp add: fresh_refs_def)
next
  case (reach_step a c)
  with assms(1) have "fresh_refs N (length hx) (cell_vals (hx ! a))"
    by (simp add: region_closed_def)
  with reach_step.hyps show ?case by (simp add: fresh_refs_def)
qed

lemma mutate_inv:
  assumes m: "mutate r hx hy"
    and n: "N \<le> length hx" and c: "region_closed N hx" and f: "fresh_refs N (length hx) [r]"
  shows "N \<le> length hy \<and> region_closed N hy \<and> fresh_refs N (length hy) [r] \<and>
         (\<forall>a<N. hy ! a = hx ! a)"
proof -
  from m have len: "length hx \<le> length hy"
    and keep: "\<forall>a<length hx. a \<notin> reach hx r \<longrightarrow> hy ! a = hx ! a"
    and refs: "\<forall>a<length hy. a \<in> reach hx r \<or> length hx \<le> a \<longrightarrow>
         (\<forall>c. VRef c \<in> set (cell_vals (hy ! a)) \<longrightarrow>
            c < length hy \<and> (c \<in> reach hx r \<or> length hx \<le> c))"
    unfolding mutate_def by blast+
  have rr: "N \<le> a \<and> a < length hx" if "a \<in> reach hx r" for a
    using c f that by (rule reach_region)
  have old: "hy ! a = hx ! a" if "a < N" for a
  proof -
    have "a \<notin> reach hx r"
    proof
      assume "a \<in> reach hx r"
      then have "N \<le> a" using rr by simp
      with that show False by simp
    qed
    with that n keep show ?thesis by simp
  qed
  have closed: "region_closed N hy"
    unfolding region_closed_def fresh_refs_def
  proof (intro allI impI)
    fix a d assume a: "N \<le> a \<and> a < length hy" and d: "VRef d \<in> set (cell_vals (hy ! a))"
    show "N \<le> d \<and> d < length hy"
    proof (cases "a \<in> reach hx r \<or> length hx \<le> a")
      case True
      with refs a d have "d < length hy \<and> (d \<in> reach hx r \<or> length hx \<le> d)" by blast
      then have dl: "d < length hy" and dr: "d \<in> reach hx r \<or> length hx \<le> d" by simp_all
      from dr have "N \<le> d"
      proof
        assume "d \<in> reach hx r"
        then show ?thesis using rr by simp
      next
        assume "length hx \<le> d"
        with n show ?thesis by simp
      qed
      with dl show ?thesis by simp
    next
      case False
      then have "a < length hx" "a \<notin> reach hx r" by simp_all
      with keep have "hy ! a = hx ! a" by simp
      with d have "VRef d \<in> set (cell_vals (hx ! a))" by simp
      moreover from c a \<open>a < length hx\<close> have "fresh_refs N (length hx) (cell_vals (hx ! a))"
        by (simp add: region_closed_def)
      ultimately have "N \<le> d \<and> d < length hx" by (simp add: fresh_refs_def)
      with len show ?thesis by simp
    qed
  qed
  from f len have "fresh_refs N (length hy) [r]"
    using fresh_refs_mono [OF f, of N "length hy"] by simp
  with n len closed old show ?thesis by simp
qed

lemma mutates_inv:
  assumes "(mutate r)\<^sup>*\<^sup>* hx hy"
    and "N \<le> length hx" and "region_closed N hx" and "fresh_refs N (length hx) [r]"
  shows "N \<le> length hy \<and> region_closed N hy \<and> fresh_refs N (length hy) [r] \<and>
         (\<forall>a<N. hy ! a = hx ! a)"
  using assms
proof (induction rule: rtranclp_induct)
  case base
  then show ?case by simp
next
  case (step y z)
  from step.IH [OF step.prems] have i: "N \<le> length y" "region_closed N y"
    "fresh_refs N (length y) [r]" "\<forall>a<N. y ! a = hx ! a"
    by blast+
  from mutate_inv [OF step.hyps(2) i(1,2,3)] i(4) show ?case by simp
qed


lemma those_map_Some:
  "those (map f xs) = Some ys \<Longrightarrow> (\<And>x y. x \<in> set xs \<Longrightarrow> f x = Some y \<Longrightarrow> g x = Some y) \<Longrightarrow>
     those (map g xs) = Some ys"
proof (induction xs arbitrary: ys)
  case Nil
  then show ?case by simp
next
  case (Cons x xs)
  from Cons.prems(1) obtain y zs where fx: "f x = Some y" and r: "those (map f xs) = Some zs"
    and ys: "ys = y # zs"
    by (auto split: option.splits)
  from fx have "g x = Some y" by (rule Cons.prems(2) [rotated]) simp
  moreover from r have "those (map g xs) = Some zs"
    by (rule Cons.IH) (simp add: Cons.prems(2))
  ultimately show ?case by (simp add: ys)
qed

text \<open>A traversal that succeeds succeeds alike with more depth, on a heap that has the same
  cells below \<open>L\<close>, and with a stack that has the same addresses below \<open>L\<close>, when every
  address of the first heap from \<open>L\<close> on is on its stack.\<close>

lemma to_json_transfer:
  "to_json n stk h v = Some j \<Longrightarrow> n \<le> n' \<Longrightarrow> \<forall>a<L. h' ! a = h ! a \<Longrightarrow> L \<le> length h' \<Longrightarrow>
   set stk' \<inter> {..<L} \<subseteq> set stk \<Longrightarrow> {L..<length h} \<subseteq> set stk \<Longrightarrow>
     to_json n' stk' h' v = Some j"
proof (induction n arbitrary: n' stk stk' v j)
  case 0
  then show ?case by (cases v) simp_all
next
  case (Suc n)
  show ?case
  proof (cases v)
    case (VRef a)
    from Suc.prems(2) obtain m where n': "n' = Suc m" and nm: "n \<le> m"
      by (cases n') simp_all
    from Suc.prems(1) VRef have a1: "a \<notin> set stk" and a2: "a < length h"
      by (simp_all split: if_splits)
    from a1 a2 Suc.prems(6) have aL: "a < L"
      by (metis atLeastLessThan_iff not_le_imp_less subsetD)
    with Suc.prems(5) a1 have b1: "a \<notin> set stk'" by auto
    from aL Suc.prems(4) have b2: "a < length h'" by simp
    from aL Suc.prems(3) have cell: "h' ! a = h ! a" by simp
    have sub: "set (a # stk') \<inter> {..<L} \<subseteq> set (a # stk)" "{L..<length h} \<subseteq> set (a # stk)"
      using Suc.prems(5,6) by auto
    have rec: "to_json m (a # stk') h' w = Some y" if "to_json n (a # stk) h w = Some y" for w y
      using that nm Suc.prems(3,4) sub by (rule Suc.IH)
    show ?thesis
    proof (cases "h ! a")
      case (CObj ps)
      from Suc.prems(1) VRef a1 a2 CObj obtain ys where
        t: "those (map (\<lambda>p. map_option (Pair (fst p)) (to_json n (a # stk) h (snd p)))
                    (filter (\<lambda>p. snd p \<noteq> VUndef) ps)) = Some ys" and j: "j = JObj ys"
        by auto
      from t have "those (map (\<lambda>p. map_option (Pair (fst p)) (to_json m (a # stk') h' (snd p)))
                    (filter (\<lambda>p. snd p \<noteq> VUndef) ps)) = Some ys"
        by (rule those_map_Some) (auto dest: rec)
      with VRef n' b1 b2 cell CObj j show ?thesis by simp
    next
      case (CArr vs)
      from Suc.prems(1) VRef a1 a2 CArr obtain ys where
        t: "those (map (\<lambda>v. to_json n (a # stk) h (if v = VUndef then VNull else v)) vs) = Some ys"
        and j: "j = JArr ys"
        by auto
      from t have "those (map (\<lambda>v. to_json m (a # stk') h' (if v = VUndef then VNull else v)) vs)
          = Some ys"
        by (rule those_map_Some) (auto dest: rec)
      with VRef n' b1 b2 cell CArr j show ?thesis by simp
    qed
  qed (use Suc.prems(1) in simp_all)
qed

lemma getState_h_state_json:
  "getState_h h sa =
     (case state_json h sa of None \<Rightarrow> None | Some j \<Rightarrow> Some (from_json j (h @ [h ! sa])))"
  by (auto simp add: getState_h_def state_json_def Let_def simp del: to_json.simps
      split: cell.splits option.splits)


lemma state_json_stable:
  assumes sj: "state_json h sa = Some j"
    and len: "length h \<le> length h2" and same: "\<forall>a<length h. h2 ! a = h ! a"
  shows "state_json h2 sa = Some j"
proof -
  from sj have sa: "sa < length h"
    by (simp add: state_json_def split: if_splits)
  from sj sa obtain ps where cell: "h ! sa = CObj ps"
    by (cases "h ! sa") (simp_all add: state_json_def)
  let ?L = "length h" and ?L2 = "length h2"
  let ?H = "h @ [CObj ps]" and ?H2 = "h2 @ [CObj ps]"
  from sj sa cell obtain ys where
    t: "those (map (\<lambda>p. map_option (Pair (fst p)) (to_json (Suc ?L) [?L] ?H (snd p)))
                (filter (\<lambda>p. snd p \<noteq> VUndef) ps)) = Some ys" and j: "j = JObj ys"
    by (auto simp: state_json_def)
  have rec: "to_json (Suc ?L2) [?L2] ?H2 w = Some y"
    if "to_json (Suc ?L) [?L] ?H w = Some y" for w y
    using that
  proof (rule to_json_transfer [where L = ?L])
    show "Suc ?L \<le> Suc ?L2" using len by simp
    show "\<forall>a<?L. ?H2 ! a = ?H ! a" using same len by (simp add: nth_append)
    show "?L \<le> length ?H2" using len by simp
    show "set [?L2] \<inter> {..<?L} \<subseteq> set [?L]" using len by auto
    show "{?L..<length ?H} \<subseteq> set [?L]" by auto
  qed
  from t have "those (map (\<lambda>p. map_option (Pair (fst p)) (to_json (Suc ?L2) [?L2] ?H2 (snd p)))
                (filter (\<lambda>p. snd p \<noteq> VUndef) ps)) = Some ys"
    by (rule those_map_Some) (auto dest: rec)
  moreover from sa len same cell have "sa < ?L2" "h2 ! sa = CObj ps" by simp_all
  ultimately show ?thesis using j by (simp add: state_json_def)
qed

lemma getState_h_state_obj:
  assumes "sa < length h" and "h ! sa = state_obj st"
  shows "getState_h h sa = Some (VRef (Suc (length h)), h @ [state_obj st, state_obj st])"
  using assms
  by (simp add: getState_h_def state_obj_def Let_def nth_append)

text \<open>The depth given to \<^verbatim>\<open>JSON.stringify\<close> is enough: one more changes nothing.\<close>

lemma stack_bound:
  assumes "distinct stk" and "set stk \<subseteq> {..<length h}"
  shows "length stk \<le> length h"
proof -
  from assms(1) have "length stk = card (set stk)"
    by (simp add: distinct_card)
  also from assms(2) have "\<dots> \<le> card {..<length h}"
    by (intro card_mono) simp_all
  finally show ?thesis by simp
qed

lemma to_json_depth_enough:
  "distinct stk \<Longrightarrow> set stk \<subseteq> {..<length h} \<Longrightarrow> length h < n + length stk \<Longrightarrow>
     to_json (Suc n) stk h v = to_json n stk h v"
proof (induction n arbitrary: stk v)
  case 0
  with stack_bound [of stk h] show ?case by simp
next
  case (Suc n)
  show ?case
  proof (cases v)
    case (VRef a)
    show ?thesis
    proof (cases "a \<in> set stk \<or> length h \<le> a")
      case True
      with VRef show ?thesis by simp
    next
      case False
      with Suc.prems have "distinct (a # stk)" "set (a # stk) \<subseteq> {..<length h}"
        "length h < n + length (a # stk)"
        by auto
      then have "to_json (Suc n) (a # stk) h w = to_json n (a # stk) h w" for w
        by (rule Suc.IH)
      then have "to_json (Suc n) (a # stk) h = to_json n (a # stk) h"
        by (rule ext)
      with VRef False show ?thesis by (simp split: cell.splits)
    qed
  qed simp_all
qed


section \<open>The properties\<close>

subsection \<open>C1\<close>

text \<open>
  C1. Starting from an empty chain (empty store, head \<open>GENESIS\<close>), after any non-empty
  sequence of \<^verbatim>\<open>appendEvent\<close> calls, whatever the entries and the nonces, the store is
  non-empty and \<^verbatim>\<open>verify()\<close> returns \<^verbatim>\<open>{ ok: true }\<close>; so it does after any sequence of
  \<^verbatim>\<open>log\<close> calls.
\<close>

theorem C1_verify_after_appendEvent:
  "store g = [] \<Longrightarrow> lastHash g = GENESIS \<Longrightarrow> xs \<noteq> [] \<Longrightarrow>
     store (appendEvents P xs g) \<noteq> [] \<and>
     verify P (appendEvents P xs g) = \<lparr> ok = True, errorIndex = None \<rparr> \<and>
     verify P (logs P ys g) = \<lparr> ok = True, errorIndex = None \<rparr>"
proof -
  assume h: "store g = []" "lastHash g = GENESIS" "xs \<noteq> []"
  then have i: "good_prefix P GENESIS (store g) = store g"
    "lastHash g = (if store g = [] then GENESIS else e_hash (last (store g)))"
    by simp_all
  from logs_inv [OF i, of ys] have "verify P (logs P ys g) = \<lparr> ok = True, errorIndex = None \<rparr>"
    by (simp add: verify_def verify_loop_good)
  with appendEvents_inv [OF i, of xs] h(3) show ?thesis
    by (simp add: verify_def verify_loop_good)
qed

text \<open>Two appends on the concrete host.\<close>

theorem C1_verify_after_appendEvent_witness:
  "store fresh_engine = [] \<and> lastHash fresh_engine = GENESIS \<and> demo_entries \<noteq> [] \<and>
   store (appendEvents demo_platform demo_entries fresh_engine) \<noteq> [] \<and>
   verify demo_platform (appendEvents demo_platform demo_entries fresh_engine) =
     \<lparr> ok = True, errorIndex = None \<rparr>"
proof -
  have h1: "store fresh_engine = []" by (simp add: fresh_engine_def)
  have h2: "lastHash fresh_engine = GENESIS" by (simp add: fresh_engine_def)
  have h3: "demo_entries \<noteq> []" by (simp add: demo_entries_def)
  from C1_verify_after_appendEvent [OF h1 h2 h3, of demo_platform] h1 h2 h3
  show ?thesis by simp
qed

subsection \<open>C2\<close>




subsection \<open>C3\<close>

text \<open>
  C3 (amended). When the stored chain verifies, the streakCount computed by replay is the
  number of runs of equal consecutive dates in the sequence of the records' dates (first 10
  characters of the timestamp, records with an empty timestamp skipped). It is the number of
  distinct dates whenever no date comes back after a different one, as with timestamps in
  chronological order.
\<close>

theorem C3_streak_counts_runs_of_dates:
  assumes "ok (verify P g)"
  shows "streak (state (snd (rebuildFromZero P g))) = length (remdups_adj (days (store g))) \<and>
         (distinct (remdups_adj (days (store g))) \<longrightarrow>
            streak (state (snd (rebuildFromZero P g))) = card (set (days (store g))))"
proof -
  from assms have gp: "good_prefix P GENESIS (store g) = store g"
    by (simp add: verify_ok_iff)
  then have s: "streak (state (snd (rebuildFromZero P g))) = length (remdups_adj (days (store g)))"
    by (simp add: rebuild_fields rebuild_loop_fields loop_init_sel fold_accrue_streak)
  have "card (set (days (store g))) = length (remdups_adj (days (store g)))"
    if "distinct (remdups_adj (days (store g)))"
    using distinct_card [OF that] by simp
  with s show ?thesis by simp
qed

text \<open>Three records on three different days.\<close>

theorem C3_streak_counts_runs_of_dates_witness:
  "ok (verify demo_platform demo_engine) \<and>
   distinct (remdups_adj (days (store demo_engine))) \<and>
   streak (state (snd (rebuildFromZero demo_platform demo_engine))) =
     length (remdups_adj (days (store demo_engine))) \<and>
   streak (state (snd (rebuildFromZero demo_platform demo_engine))) =
     card (set (days (store demo_engine)))"
proof -
  have h1: "ok (verify demo_platform demo_engine)"
    unfolding demo_engine_def by (rule logs_verify) (simp_all add: fresh_engine_def)
  have h2: "distinct (remdups_adj (days (store demo_engine)))" by code_simp
  from C3_streak_counts_runs_of_dates [OF h1] h1 h2 show ?thesis by simp
qed

text \<open>The clock set back: the dates are 1 January, 2 January, 1 January; replay counts 3, there
  are 2 distinct dates.\<close>

theorem C3_streak_counterexample:
  "ok (verify demo_platform backdated_engine) \<and>
   days (store backdated_engine) = [''2025-01-01'', ''2025-01-02'', ''2025-01-01''] \<and>
   streak (state (snd (rebuildFromZero demo_platform backdated_engine))) = 3 \<and>
   card (set (days (store backdated_engine))) = 2"
  by code_simp

subsection \<open>C4\<close>

text \<open>
  C4 (amended). Starting from the empty chain, after \<^verbatim>\<open>log("xp", {amount: 5})\<close>,
  \<^verbatim>\<open>log("xp", {amount: 3})\<close> and \<^verbatim>\<open>log("heartbeat", {})\<close>, whatever the host, the nonces and
  the clock readings, \<^verbatim>\<open>getState()\<close> reports eventCount 3 and experiencePoints still 0; after
  the next replay (\<^verbatim>\<open>rebuildFromZero\<close>) it reports experiencePoints 8, the rounding of
  5 + 3 + 0.1, and eventCount 3.
\<close>

theorem C4_xp_after_replay:
  "events (getState (logs P [(n1, now1, ''xp'', Some (amount_data 5)),
                             (n2, now2, ''xp'', Some (amount_data 3)),
                             (n3, now3, ''heartbeat'', Some no_data)] fresh_engine)) = 3 \<and>
   xp (getState (logs P [(n1, now1, ''xp'', Some (amount_data 5)),
                         (n2, now2, ''xp'', Some (amount_data 3)),
                         (n3, now3, ''heartbeat'', Some no_data)] fresh_engine)) = 0 \<and>
   xp (getState (snd (rebuildFromZero P
         (logs P [(n1, now1, ''xp'', Some (amount_data 5)),
                  (n2, now2, ''xp'', Some (amount_data 3)),
                  (n3, now3, ''heartbeat'', Some no_data)] fresh_engine)))) = 8 \<and>
   events (getState (snd (rebuildFromZero P
         (logs P [(n1, now1, ''xp'', Some (amount_data 5)),
                  (n2, now2, ''xp'', Some (amount_data 3)),
                  (n3, now3, ''heartbeat'', Some no_data)] fresh_engine)))) = 3"
proof -
  define g1 where "g1 = snd (log P n1 now1 ''xp'' (Some (amount_data 5)) fresh_engine)"
  define g2 where "g2 = snd (log P n2 now2 ''xp'' (Some (amount_data 3)) g1)"
  define g3 where "g3 = snd (log P n3 now3 ''heartbeat'' (Some no_data) g2)"
  define r1 where "r1 = fst (log P n1 now1 ''xp'' (Some (amount_data 5)) fresh_engine)"
  define r2 where "r2 = fst (log P n2 now2 ''xp'' (Some (amount_data 3)) g1)"
  define r3 where "r3 = fst (log P n3 now3 ''heartbeat'' (Some no_data) g2)"
  have run: "logs P [(n1, now1, ''xp'', Some (amount_data 5)),
                     (n2, now2, ''xp'', Some (amount_data 3)),
                     (n3, now3, ''heartbeat'', Some no_data)] fresh_engine = g3"
    by (simp add: g1_def g2_def g3_def)
  have i0: "good_prefix P GENESIS (store fresh_engine) = store fresh_engine"
    "lastHash fresh_engine =
       (if store fresh_engine = [] then GENESIS else e_hash (last (store fresh_engine)))"
    by (simp_all add: fresh_engine_def)
  have i1: "good_prefix P GENESIS (store g1) = store g1"
    "lastHash g1 = (if store g1 = [] then GENESIS else e_hash (last (store g1)))"
    unfolding g1_def by (rule log_inv [OF i0])+
  have i2: "good_prefix P GENESIS (store g2) = store g2"
    "lastHash g2 = (if store g2 = [] then GENESIS else e_hash (last (store g2)))"
    unfolding g2_def by (rule log_inv [OF i1])+
  have i3: "good_prefix P GENESIS (store g3) = store g3"
    unfolding g3_def by (rule log_inv [OF i2])
  have st: "store g3 = [r1, r2, r3]"
    by (simp add: g3_def g2_def g1_def r1_def r2_def r3_def log_store fresh_engine_def)
  have ty: "e_type r1 = ''xp''" "e_type r2 = ''xp''" "e_type r3 = ''heartbeat''"
    and da: "e_data r1 = Some (amount_data 5)" "e_data r2 = Some (amount_data 3)"
    by (simp_all add: r1_def r2_def r3_def log_rec)
  have ev: "events (state g3) = 3" and x0: "xp (state g3) = 0"
    by (simp_all add: g3_def g2_def g1_def log_state fresh_engine_def)
  have "l_xp (rebuild_loop P (store g3) loop_init) = l_xp (fold accrue (store g3) loop_init)"
    using i3 by (simp add: rebuild_loop_fields loop_init_sel)
  also have "\<dots> = 81 / 10"
    using ty da
    by (simp add: st loop_init_sel accrue_xp amount_or_default_def amount_data_def)
  finally have acc: "l_xp (rebuild_loop P (store g3) loop_init) = 81 / 10" .
  have rnd: "round (81 / 10 :: rat) = 8"
    by (simp add: round_def floor_eq_iff)
  have x8: "xp (state (snd (rebuildFromZero P g3))) = 8"
    by (simp add: rebuild_fields acc rnd)
  have e3: "events (state (snd (rebuildFromZero P g3))) = 3"
    by (simp add: rebuild_fields st)
  show ?thesis
    unfolding run using ev x0 x8 e3 by (simp add: getState_def)
qed

text \<open>The scenario on the concrete host.\<close>

theorem C4_xp_after_replay_witness:
  "events (getState scenario_engine) = 3 \<and>
   xp (getState (snd (rebuildFromZero demo_platform scenario_engine))) = 8 \<and>
   events (getState (snd (rebuildFromZero demo_platform scenario_engine))) = 3"
  using C4_xp_after_replay [of demo_platform "''k3j2''" "''2025-01-01T10:00:00.000Z''"
      "''9x0q''" "''2025-01-01T10:00:07.000Z''" "''p7mm''" "''2025-01-01T10:00:15.000Z''"]
  by (simp add: scenario_engine_def)

text \<open>Right after the three logs the reported experiencePoints is 0.\<close>

theorem C4_getState_counterexample:
  "store fresh_engine = [] \<and> xp (getState scenario_engine) = 0 \<and>
   xp (getState scenario_engine) \<noteq> 8"
  by code_simp

subsection \<open>C5\<close>

text \<open>What the replay of a chain that verifies adds for a record of type "xp": the value of
  \<^verbatim>\<open>(e.data && e.data.amount) || 1\<close>, in the exact arithmetic of the embedding.\<close>

lemma xp_record_accrual:
  assumes "ok (verify_loop P (es @ [e]) 0 GENESIS)" and "e_type e = ''xp''"
  shows "l_xp (rebuild_loop P (es @ [e]) loop_init) =
           l_xp (rebuild_loop P es loop_init) +
           (case e_data e of
              None \<Rightarrow> 1
            | Some m \<Rightarrow> (case amount m of None \<Rightarrow> 1 | Some a \<Rightarrow> if a = 0 then 1 else a))"
proof -
  from assms(1) have full: "good_prefix P GENESIS (es @ [e]) = es @ [e]"
    by (simp add: verify_loop_good split: if_splits)
  have pre: "good_prefix P GENESIS es = es"
  proof (rule ccontr)
    assume "good_prefix P GENESIS es \<noteq> es"
    then have "good_prefix P GENESIS (es @ [e]) = good_prefix P GENESIS es"
      by (simp add: good_prefix_snoc)
    with full have "length (good_prefix P GENESIS es) = Suc (length es)"
      by (metis length_append_singleton)
    with good_prefix_length [of P GENESIS es] show False
      by simp
  qed
  from full pre assms(2) show ?thesis
    by (simp add: rebuild_loop_fields loop_init_sel accrue_xp amount_or_default_def)
qed

text \<open>
  C5. A record of type "xp" whose data holds the amount 0 does not contribute 0 in replay: on
  the chain of a single such record, which verifies, the loop accrues 1 and the replayed
  experiencePoints is 1.
\<close>

theorem C5_zero_amount_replay:
  "ok (verify demo_platform zero_amount_engine) \<and>
   map e_type (store zero_amount_engine) = [''xp''] \<and>
   map e_data (store zero_amount_engine) = [Some \<lparr> amount = Some 0, members = [] \<rparr>] \<and>
   l_xp (rebuild_loop demo_platform (store zero_amount_engine) loop_init) = 1 \<and>
   xp (getState (snd (rebuildFromZero demo_platform zero_amount_engine))) = 1"
  by code_simp

subsection \<open>C6\<close>

text \<open>
  C6 (amended). When some stored record has a \<^verbatim>\<open>prev\<close> that differs from the hash of its
  predecessor, or a recomputed digest that differs from its stored hash, there is a first
  such record, at an index \<open>i\<close>: \<^verbatim>\<open>rebuildFromZero\<close> stops there (its loop has accrued
  exactly the first \<open>i\<close> records) and returns \<^verbatim>\<open>{ ok: false }\<close>, a result without an index;
  the stored records are unchanged; the index \<open>i\<close> is what \<^verbatim>\<open>verify()\<close> reports.
\<close>

theorem C6_rebuild_reports_no_index:
  assumes "broken_at P GENESIS (store g) j"
  shows "\<exists>i\<le>j. first_broken P (store g) i \<and>
           fst (rebuildFromZero P g) = \<lparr> ok = False, errorIndex = None \<rparr> \<and>
           rebuild_loop P (store g) loop_init =
             (fold accrue (take i (store g)) loop_init)\<lparr> l_ok := False \<rparr> \<and>
           store (snd (rebuildFromZero P g)) = store g \<and>
           verify P g = \<lparr> ok = False, errorIndex = Some i \<rparr>"
proof -
  define i where "i = length (good_prefix P GENESIS (store g))"
  from assms have ne: "good_prefix P GENESIS (store g) \<noteq> store g"
    using good_prefix_none_broken [of P GENESIS "store g" j] by blast
  with i_def have fb: "first_broken P (store g) i"
    by (simp add: first_broken_iff)
  have "\<not> j < i"
  proof
    assume "j < i"
    with good_prefix_first_broken [OF ne] i_def have "\<not> broken_at P GENESIS (store g) j"
      by blast
    with assms show False by contradiction
  qed
  then have le: "i \<le> j" by simp
  from i_def have tk: "good_prefix P GENESIS (store g) = take i (store g)"
    using good_prefix_take [of P GENESIS "store g"] by simp
  have loop: "rebuild_loop P (store g) loop_init =
      (fold accrue (take i (store g)) loop_init)\<lparr> l_ok := False \<rparr>"
    using ne tk by (simp add: rebuild_loop_good [of P "store g" loop_init] loop_init_sel)
  have res: "fst (rebuildFromZero P g) = \<lparr> ok = False, errorIndex = None \<rparr>"
    using ne by (simp add: rebuild_fields rebuild_loop_fields loop_init_sel)
  have ver: "verify P g = \<lparr> ok = False, errorIndex = Some i \<rparr>"
    using fb by (simp add: verify_fails_iff)
  from le fb res loop ver show ?thesis
    by (auto simp: rebuild_store)
qed

text \<open>The chain with its record at index 1 edited.\<close>

theorem C6_rebuild_reports_no_index_witness:
  "broken_at demo_platform GENESIS (store tampered_engine) 1 \<and>
   (\<exists>i\<le>1. first_broken demo_platform (store tampered_engine) i \<and>
      fst (rebuildFromZero demo_platform tampered_engine) = \<lparr> ok = False, errorIndex = None \<rparr> \<and>
      store (snd (rebuildFromZero demo_platform tampered_engine)) = store tampered_engine \<and>
      verify demo_platform tampered_engine = \<lparr> ok = False, errorIndex = Some i \<rparr>)"
proof -
  have h: "broken_at demo_platform GENESIS (store tampered_engine) 1" by code_simp
  from C6_rebuild_reports_no_index [OF h] h show ?thesis by blast
qed

text \<open>On that chain the result of the replay has no index.\<close>

theorem C6_rebuild_index_counterexample:
  "first_broken demo_platform (store tampered_engine) 1 \<and>
   ok (fst (rebuildFromZero demo_platform tampered_engine)) = False \<and>
   errorIndex (fst (rebuildFromZero demo_platform tampered_engine)) \<noteq> Some 1 \<and>
   errorIndex (fst (rebuildFromZero demo_platform tampered_engine)) = None"
  by code_simp

subsection \<open>C7\<close>

text \<open>
  C7 (amended). When no record of the imported chain has a \<^verbatim>\<open>prev\<close> equal to the local
  chainHead, \<^verbatim>\<open>importLog\<close> returns merged = 0 and leaves the stored records unchanged; the
  state it leaves is the one a replay of the unchanged store computes, hence the local state
  itself whenever that state was already the result of a replay.
\<close>

theorem C7_import_without_extension:
  assumes "\<forall>e\<in>set es. e_prev e \<noteq> rootHash (state g)"
  shows "fst (importLog P (Some es) g) = \<lparr> i_ok = True, merged = 0 \<rparr> \<and>
         store (snd (importLog P (Some es) g)) = store g \<and>
         getState (snd (importLog P (Some es) g)) = getState (snd (rebuildFromZero P g)) \<and>
         (getState (snd (rebuildFromZero P g)) = getState g \<longrightarrow>
            getState (snd (importLog P (Some es) g)) = getState g)"
proof -
  from assms have "import_loop es (g, rootHash (state g), 0) = (g, rootHash (state g), 0)"
    by (rule import_loop_none)
  then show ?thesis
    by (simp add: importLog_Some rebuild_store)
qed

text \<open>A chain written elsewhere, imported into the replayed three-record engine.\<close>

theorem C7_import_without_extension_witness:
  "list_all (\<lambda>e. e_prev e \<noteq> rootHash (state (snd (rebuildFromZero demo_platform demo_engine))))
     (store foreign_engine) \<and>
   getState (snd (rebuildFromZero demo_platform (snd (rebuildFromZero demo_platform demo_engine)))) =
     getState (snd (rebuildFromZero demo_platform demo_engine)) \<and>
   fst (importLog demo_platform (Some (store foreign_engine))
          (snd (rebuildFromZero demo_platform demo_engine))) = \<lparr> i_ok = True, merged = 0 \<rparr> \<and>
   store (snd (importLog demo_platform (Some (store foreign_engine))
                 (snd (rebuildFromZero demo_platform demo_engine)))) =
     store (snd (rebuildFromZero demo_platform demo_engine)) \<and>
   getState (snd (importLog demo_platform (Some (store foreign_engine))
                    (snd (rebuildFromZero demo_platform demo_engine)))) =
     getState (snd (rebuildFromZero demo_platform demo_engine))"
proof -
  have h: "list_all
      (\<lambda>e. e_prev e \<noteq> rootHash (state (snd (rebuildFromZero demo_platform demo_engine))))
      (store foreign_engine)"
    by code_simp
  then have h': "\<forall>e\<in>set (store foreign_engine).
      e_prev e \<noteq> rootHash (state (snd (rebuildFromZero demo_platform demo_engine)))"
    by (simp add: list_all_iff)
  have i: "getState (snd (rebuildFromZero demo_platform
                            (snd (rebuildFromZero demo_platform demo_engine)))) =
      getState (snd (rebuildFromZero demo_platform demo_engine))"
    by (rule rebuild_idem)
  from C7_import_without_extension [OF h', of demo_platform] h i show ?thesis by simp
qed

text \<open>The local engine holds the first record of a chain; importing the whole chain merges the
  other two, although the first imported record does not extend the local head.\<close>

theorem C7_import_counterexample:
  "e_prev (hd (store demo_engine)) \<noteq> rootHash (state local_engine) \<and>
   merged (fst (importLog demo_platform (Some (store demo_engine)) local_engine)) = 2 \<and>
   length (store (snd (importLog demo_platform (Some (store demo_engine)) local_engine))) = 3 \<and>
   length (store local_engine) = 1"
  by code_simp

subsection \<open>C8\<close>

text \<open>
  C8. \<^verbatim>\<open>getState()\<close> returns a deep copy. For every engine state, with its \<^verbatim>\<open>state\<close> object
  at an address of any heap, the call returns a reference to a new cell that holds the
  members of the derived state. For every \<^verbatim>\<open>state\<close> object, whatever it holds and however
  deep, when the call returns, every cell reached from the returned reference is a cell
  allocated by the call, and the cells that existed before are as they were. After any
  sequence of mutations a caller makes through the returned reference, at any depth and with
  any allocation of its own, the cells that existed before the call still have their content
  and are still out of reach from the reference, and a later \<^verbatim>\<open>getState()\<close> returns, parsed from
  the same text as the first.
\<close>

theorem C8_getState_snapshot_is_fresh:
  "(sa < length h \<and> h ! sa = state_obj (state g) \<longrightarrow>
      (\<exists>b h1. getState_h h sa = Some (VRef b, h1) \<and> h1 ! b = state_obj (getState g))) \<and>
   (\<forall>r h1. getState_h h sa = Some (r, h1) \<longrightarrow>
      reach h1 r \<subseteq> {Suc (length h)..<length h1} \<and>
      (\<forall>a<length h. h1 ! a = h ! a) \<and>
      (\<forall>h2. (mutate r)\<^sup>*\<^sup>* h1 h2 \<longrightarrow>
         reach h2 r \<subseteq> {Suc (length h)..<length h2} \<and>
         (\<forall>a<length h. h2 ! a = h ! a) \<and>
         state_json h2 sa = state_json h sa \<and>
         getState_h h2 sa \<noteq> None))"
proof -
  let ?N = "Suc (length h)"
  have flat: "\<exists>b h1. getState_h h sa = Some (VRef b, h1) \<and> h1 ! b = state_obj (getState g)"
    if "sa < length h \<and> h ! sa = state_obj (state g)"
  proof -
    from that have "getState_h h sa =
        Some (VRef ?N, h @ [state_obj (state g), state_obj (state g)])"
      by (simp add: getState_h_state_obj)
    moreover have "(h @ [state_obj (state g), state_obj (state g)]) ! ?N =
        state_obj (getState g)"
      by (simp add: getState_def nth_append)
    ultimately show ?thesis by blast
  qed
  have deep: "reach h1 r \<subseteq> {?N..<length h1} \<and>
      (\<forall>a<length h. h1 ! a = h ! a) \<and>
      (\<forall>h2. (mutate r)\<^sup>*\<^sup>* h1 h2 \<longrightarrow>
         reach h2 r \<subseteq> {?N..<length h2} \<and>
         (\<forall>a<length h. h2 ! a = h ! a) \<and>
         state_json h2 sa = state_json h sa \<and>
         getState_h h2 sa \<noteq> None)"
    if gs: "getState_h h sa = Some (r, h1)" for r h1
  proof -
    from gs obtain j where sj: "state_json h sa = Some j"
      and fj: "from_json j (h @ [h ! sa]) = (r, h1)"
      by (auto simp: getState_h_state_json split: option.splits)
    have n0: "?N \<le> length (h @ [h ! sa])" by simp
    have c0: "region_closed ?N (h @ [h ! sa])"
      by (auto simp: region_closed_def)
    from from_json_fresh(1) [OF fj n0 c0] obtain ext where ext: "h1 = (h @ [h ! sa]) @ ext"
      and fr: "fresh_refs ?N (length h1) [r]" and cl: "region_closed ?N h1"
      by auto
    from ext have n1: "?N \<le> length h1" by simp
    have r1: "reach h1 r \<subseteq> {?N..<length h1}"
      using reach_region [OF cl fr] by auto
    have o1: "\<forall>a<length h. h1 ! a = h ! a"
      by (simp add: ext nth_append)
    have later: "reach h2 r \<subseteq> {?N..<length h2} \<and>
         (\<forall>a<length h. h2 ! a = h ! a) \<and>
         state_json h2 sa = state_json h sa \<and>
         getState_h h2 sa \<noteq> None"
      if m: "(mutate r)\<^sup>*\<^sup>* h1 h2" for h2
    proof -
      from mutates_inv [OF m n1 cl fr] have n2: "?N \<le> length h2"
        and c2: "region_closed ?N h2"
        and f2: "fresh_refs ?N (length h2) [r]" and k: "\<forall>a<?N. h2 ! a = h1 ! a"
        by blast+
      have r2: "reach h2 r \<subseteq> {?N..<length h2}"
        using reach_region [OF c2 f2] by auto
      from k o1 have o2: "\<forall>a<length h. h2 ! a = h ! a" by simp
      from n2 have "length h \<le> length h2" by simp
      with sj have s2: "state_json h2 sa = Some j"
        using o2 by (rule state_json_stable)
      then have "getState_h h2 sa \<noteq> None"
        by (simp add: getState_h_state_json)
      with r2 o2 s2 sj show ?thesis by simp
    qed
    from r1 o1 later show ?thesis by blast
  qed
  from flat deep show ?thesis by blast
qed

text \<open>The flat state object of the three-record engine; and a state object that holds an
  array that holds an object: the snapshot is the cells 4 to 6, the caller overwrites the
  innermost object, adds a member to the snapshot and allocates a cell that refers back to it,
  and the three cells of the engine are as before.\<close>

theorem C8_getState_snapshot_is_fresh_witness:
  "0 < length demo_heap \<and> demo_heap ! 0 = state_obj (state demo_engine) \<and>
   (\<exists>b h1. getState_h demo_heap 0 = Some (VRef b, h1) \<and>
      h1 ! b = state_obj (getState demo_engine)) \<and>
   getState_h nested_heap 0 = Some (VRef 6, nested_snapshot) \<and>
   reach nested_snapshot (VRef 6) \<subseteq> {4..<7} \<and>
   mutate (VRef 6) nested_snapshot nested_mutated \<and>
   take 3 nested_mutated = nested_heap \<and>
   state_json nested_mutated 0 = state_json nested_heap 0 \<and>
   getState_h nested_mutated 0 \<noteq> None"
proof -
  let ?r = "VRef 6"
  have p1: "0 < length demo_heap" by (simp add: demo_heap_def)
  have p2: "demo_heap ! 0 = state_obj (state demo_engine)" by (simp add: demo_heap_def)
  from C8_getState_snapshot_is_fresh [of 0 demo_heap demo_engine] p1 p2
  have flat: "\<exists>b h1. getState_h demo_heap 0 = Some (VRef b, h1) \<and>
      h1 ! b = state_obj (getState demo_engine)"
    by blast
  have gs: "getState_h nested_heap 0 = Some (?r, nested_snapshot)"
    by (simp add: getState_h_def nested_heap_def nested_snapshot_def Let_def)
  from C8_getState_snapshot_is_fresh [of 0 nested_heap demo_engine] gs
  have sub: "reach nested_snapshot ?r \<subseteq> {Suc (length nested_heap)..<length nested_snapshot}"
    and later: "\<forall>h2. (mutate ?r)\<^sup>*\<^sup>* nested_snapshot h2 \<longrightarrow>
         reach h2 ?r \<subseteq> {Suc (length nested_heap)..<length h2} \<and>
         (\<forall>a<length nested_heap. h2 ! a = nested_heap ! a) \<and>
         state_json h2 0 = state_json nested_heap 0 \<and>
         getState_h h2 0 \<noteq> None"
    by blast+
  have l3: "length nested_heap = 3" and l7: "length nested_snapshot = 7"
    and l8: "length nested_mutated = 8"
    by (simp_all add: nested_heap_def nested_snapshot_def nested_mutated_def)
  from sub have sub': "reach nested_snapshot ?r \<subseteq> {4..<7}"
    by (simp add: l3 l7)
  have r6: "6 \<in> reach nested_snapshot ?r"
    by (rule reach.reach_root) (simp_all add: nested_snapshot_def nested_heap_def)
  from r6 have r5: "5 \<in> reach nested_snapshot ?r"
    by (rule reach.reach_step) (simp_all add: nested_snapshot_def nested_heap_def)
  from r5 have r4: "4 \<in> reach nested_snapshot ?r"
    by (rule reach.reach_step) (simp_all add: nested_snapshot_def nested_heap_def)
  have keep: "nested_mutated ! a = nested_snapshot ! a"
    if "a < length nested_snapshot" and "a \<notin> reach nested_snapshot ?r" for a
  proof -
    from that r4 r6 have "a \<noteq> 4" "a \<noteq> 6" by auto
    with that(1) have "a = 0 \<or> a = 1 \<or> a = 2 \<or> a = 3 \<or> a = 5"
      unfolding l7 by arith
    then show ?thesis
      by (auto simp: nested_snapshot_def nested_mutated_def nested_heap_def)
  qed
  have refs: "c < length nested_mutated \<and> (c \<in> reach nested_snapshot ?r \<or> length nested_snapshot \<le> c)"
    if "a < length nested_mutated" and "a \<in> reach nested_snapshot ?r \<or> length nested_snapshot \<le> a"
      and "VRef c \<in> set (cell_vals (nested_mutated ! a))" for a c
  proof -
    from that(2) sub' have "(4 \<le> a \<and> a < 7) \<or> 7 \<le> a"
      unfolding l7 by auto
    with that(1) have "a = 4 \<or> a = 5 \<or> a = 6 \<or> a = 7"
      unfolding l8 by arith
    with that(3) have "c = 4 \<or> c = 5 \<or> c = 6 \<or> c = 7"
      by (auto simp: nested_mutated_def nested_heap_def)
    with r4 r5 r6 show ?thesis
      unfolding l7 l8 by auto
  qed
  have m: "mutate ?r nested_snapshot nested_mutated"
    unfolding mutate_def
  proof (intro conjI allI impI)
    show "length nested_snapshot \<le> length nested_mutated"
      by (simp add: l7 l8)
  qed (use keep refs in blast)+
  then have "(mutate ?r)\<^sup>*\<^sup>* nested_snapshot nested_mutated"
    by (rule r_into_rtranclp)
  with later have old: "\<forall>a<length nested_heap. nested_mutated ! a = nested_heap ! a"
    and sj: "state_json nested_mutated 0 = state_json nested_heap 0"
    and g2: "getState_h nested_mutated 0 \<noteq> None"
    by blast+
  have tk: "take 3 nested_mutated = nested_heap"
    by (simp add: nested_mutated_def nested_heap_def)
  from p1 p2 flat gs sub' m tk sj g2 show ?thesis by blast
qed

subsection \<open>C9\<close>



subsection \<open>C10\<close>

text \<open>
  C10. When every stored record has type "click" or "quest:complete", \<^verbatim>\<open>log\<close> of such a
  type raises the in-memory experiencePoints by 1, and a replay, before or after that log,
  yields experiencePoints 0.
\<close>

theorem C10_click_and_quest_accrue_nothing:
  assumes "\<forall>e\<in>set (store g). e_type e = ''click'' \<or> e_type e = ''quest:complete''"
    and "ty = ''click'' \<or> ty = ''quest:complete''"
  shows "xp (state (snd (log P n now ty d g))) = xp (state g) + 1 \<and>
         xp (state (snd (rebuildFromZero P (snd (log P n now ty d g))))) = 0 \<and>
         xp (state (snd (rebuildFromZero P g))) = 0"
proof -
  have zero: "xp (state (snd (rebuildFromZero P h))) = 0"
    if "\<forall>e\<in>set (store h). e_type e = ''click'' \<or> e_type e = ''quest:complete''" for h
  proof -
    from that good_prefix_subset [of P GENESIS "store h"]
    have "\<forall>e\<in>set (good_prefix P GENESIS (store h)).
        e_type e = ''click'' \<or> e_type e = ''quest:complete''"
      by blast
    then have "\<forall>e\<in>set (good_prefix P GENESIS (store h)).
        e_type e \<noteq> ''xp'' \<and> e_type e \<noteq> ''heartbeat''"
      by auto
    then have "l_xp (fold accrue (good_prefix P GENESIS (store h)) loop_init) = 0"
      by (simp add: fold_accrue_no_xp loop_init_sel)
    then show ?thesis
      by (simp add: rebuild_fields rebuild_loop_fields loop_init_sel)
  qed
  have st: "store (snd (log P n now ty d g)) =
      store g @ [fst (log P n now ty d g)]" and ty: "e_type (fst (log P n now ty d g)) = ty"
    by (simp_all add: log_def Let_def appendEvent_def saveMeta_def mk_rec_def split: prod.splits)
  have bump: "xp (state (snd (log P n now ty d g))) = xp (state g) + 1"
    using assms(2) by (auto simp: log_def Let_def appendEvent_def saveMeta_def split: prod.splits)
  from assms st ty have "\<forall>e\<in>set (store (snd (log P n now ty d g))).
      e_type e = ''click'' \<or> e_type e = ''quest:complete''"
    by auto
  from zero [OF this] zero [OF assms(1)] bump show ?thesis by simp
qed

text \<open>Two interactive logs, then a third.\<close>

theorem C10_click_and_quest_accrue_nothing_witness:
  "list_all (\<lambda>e. e_type e = ''click'' \<or> e_type e = ''quest:complete'') (store click_engine) \<and>
   xp (state (snd (log demo_platform ''p7mm'' ''2025-01-01T10:00:15.000Z'' ''click'' None
                     click_engine))) = xp (state click_engine) + 1 \<and>
   xp (state (snd (rebuildFromZero demo_platform
        (snd (log demo_platform ''p7mm'' ''2025-01-01T10:00:15.000Z'' ''click'' None
                click_engine))))) = 0 \<and>
   xp (state (snd (rebuildFromZero demo_platform click_engine))) = 0"
proof -
  have h: "list_all (\<lambda>e. e_type e = ''click'' \<or> e_type e = ''quest:complete'')
             (store click_engine)"
    by code_simp
  then have h1: "\<forall>e\<in>set (store click_engine). e_type e = ''click'' \<or> e_type e = ''quest:complete''"
    by (simp add: list_all_iff)
  have h2: "''click'' = ''click'' \<or> ''click'' = ''quest:complete''" by simp
  from C10_click_and_quest_accrue_nothing [OF h1 h2, of demo_platform] h show ?thesis by simp
qed


end
